theory Spec2Isabelle
  imports Complex_Main
begin

section \<open>The Newton solver of fatiando.inversion.gradient\<close>

text \<open>
  The module \<^verbatim>\<open>fatiando/inversion/gradient.py\<close> defines one solver, the generator
  function \<^verbatim>\<open>newton\<close>. Scalars are Python floats, modelled as \<open>real\<close> (rounding is
  not modelled; a float division by zero raises \<^verbatim>\<open>ZeroDivisionError\<close>). One
  dimensional numpy arrays and Python lists of floats are \<open>real list\<close>; the objects
  that the generator shares with its caller (the parameter array and the two history
  lists) live in an explicit store, because the source updates them in place.
\<close>

subsection \<open>Exceptions\<close>

datatype error =
    ValueError string
  | LinAlgError
  | ZeroDivisionError
  | IndexError

subsection \<open>Arrays\<close>

type_synonym array = "real list"
type_synonym matrix = "real list list"

text \<open>\<^verbatim>\<open>numpy.zeros_like(p)\<close> and \<^verbatim>\<open>numpy.zeros((nparams, nparams))\<close>.\<close>

definition zeros_like :: "array \<Rightarrow> array" where
  "zeros_like p = replicate (length p) 0"

definition zeros :: "nat \<Rightarrow> nat \<Rightarrow> matrix" where
  "zeros m n = replicate m (replicate n 0)"

text \<open>
  \<^verbatim>\<open>a - b\<close> on one dimensional arrays: elementwise on equal shapes, a length one
  operand is broadcast, any other pair of shapes raises \<^verbatim>\<open>ValueError\<close>.
\<close>

definition np_sub :: "array \<Rightarrow> array \<Rightarrow> error + array" where
  "np_sub a b =
     (if length a = length b then Inr (map2 (-) a b)
      else if length b = 1 then Inr (map (\<lambda>x. x - hd b) a)
      else if length a = 1 then Inr (map (\<lambda>y. hd a - y) b)
      else Inl (ValueError ''operands could not be broadcast together''))"

text \<open>
  \<^verbatim>\<open>p += v\<close>: the in-place sum keeps the shape of \<^verbatim>\<open>p\<close>; \<^verbatim>\<open>v\<close> has the shape of
  \<^verbatim>\<open>p\<close> or is broadcast from length one, anything else raises \<^verbatim>\<open>ValueError\<close>.
  The function gives the new contents of the array \<^verbatim>\<open>p\<close>.
\<close>

definition np_iadd :: "array \<Rightarrow> array \<Rightarrow> error + array" where
  "np_iadd p v =
     (if length v = length p then Inr (map2 (+) p v)
      else if length v = 1 then Inr (map (\<lambda>x. x + hd v) p)
      else Inl (ValueError ''operands could not be broadcast together''))"

text \<open>\<^verbatim>\<open>c * v\<close> for a scalar \<^verbatim>\<open>c\<close>.\<close>

definition scale :: "real \<Rightarrow> array \<Rightarrow> array" where
  "scale c v = map (\<lambda>x. c * x) v"

text \<open>Python's \<^verbatim>\<open>xs[k]\<close>; a negative index counts from the end.\<close>

definition py_index :: "real list \<Rightarrow> int \<Rightarrow> error + real" where
  "py_index xs k =
     (let n = int (length xs); j = (if k < 0 then n + k else k)
      in if 0 \<le> j \<and> j < n then Inr (xs ! nat j) else Inl IndexError)"

text \<open>Python's \<^verbatim>\<open>sum\<close>: starts at 0 and adds from the left.\<close>

definition py_sum :: "real list \<Rightarrow> real" where
  "py_sum xs = foldl (+) 0 xs"

text \<open>Float division \<^verbatim>\<open>a / b\<close>.\<close>

definition py_div :: "real \<Rightarrow> real \<Rightarrow> error + real" where
  "py_div a b = (if b = 0 then Inl ZeroDivisionError else Inr (a / b))"

subsection \<open>Contributors\<close>

text \<open>
  The classes \<^verbatim>\<open>DataModule\<close> and \<^verbatim>\<open>Regularizer\<close> are not part of the module; the
  solver uses the attribute \<^verbatim>\<open>data\<close> and the methods below, which are taken as
  functions of their arguments (\<^verbatim>\<open>sum_gradient\<close>, \<^verbatim>\<open>sum_hessian\<close> and \<^verbatim>\<open>value\<close>
  carry a prefix, the two classes sharing the method names).
\<close>

record datamodule =
  data :: array
  get_predicted :: "array \<Rightarrow> array"
  get_misfit :: "array \<Rightarrow> real"
  dm_sum_gradient :: "array \<Rightarrow> array \<Rightarrow> array \<Rightarrow> array"
  dm_sum_hessian :: "matrix \<Rightarrow> array \<Rightarrow> matrix"

record regularizer =
  reg_value :: "array \<Rightarrow> real"
  reg_sum_gradient :: "array \<Rightarrow> array \<Rightarrow> array"
  reg_sum_hessian :: "matrix \<Rightarrow> array \<Rightarrow> matrix"

text \<open>
  The linear solver \<^verbatim>\<open>linsys_solver\<close> is a parameter of the generator; the model of
  \<^verbatim>\<open>numpy.linalg.solve\<close>, which the module binds to that name, is \<open>linalg_solve\<close>
  below.
\<close>

type_synonym linsys = "matrix \<Rightarrow> array \<Rightarrow> error + array"

subsection \<open>The store\<close>

type_synonym addr = nat

record heap =
  cells :: "addr \<Rightarrow> real list"
  top :: addr

definition alloc :: "real list \<Rightarrow> heap \<Rightarrow> addr \<times> heap" where
  "alloc v h = (top h, h\<lparr>cells := (cells h)(top h := v), top := Suc (top h)\<rparr>)"

definition store :: "addr \<Rightarrow> real list \<Rightarrow> heap \<Rightarrow> heap" where
  "store a v h = h\<lparr>cells := (cells h)(a := v)\<rparr>"

text \<open>\<^verbatim>\<open>xs.append(x)\<close> on the list at address \<open>a\<close>.\<close>

definition append_at :: "addr \<Rightarrow> real \<Rightarrow> heap \<Rightarrow> heap" where
  "append_at a x h = store a (cells h a @ [x]) h"

subsection \<open>The generator\<close>

text \<open>
  A changeset is the dictionary the generator yields: its values are references
  (the array \<^verbatim>\<open>p\<close>, the lists \<^verbatim>\<open>misfits\<close> and \<^verbatim>\<open>goals\<close>, the list \<^verbatim>\<open>dms\<close>).
\<close>

record changeset =
  estimate :: addr
  cs_misfits :: addr
  cs_goals :: addr
  cs_dms :: "datamodule list"

datatype pc = Created | Suspended | Finished

text \<open>
  The generator object: where its frame stands, the arguments (\<open>a_\<close>) and the local
  variables (\<open>v_\<close>) of \<^verbatim>\<open>newton\<close>.
\<close>

record gen =
  g_pc :: pc
  a_dms :: "datamodule list"
  a_initial :: addr
  a_regs :: "regularizer list"
  a_step :: real
  a_maxit :: int
  a_tol :: real
  v_p :: addr
  v_nparams :: nat
  v_residuals :: "array list"
  v_misfits :: addr
  v_goals :: addr
  v_i :: nat

datatype outcome = Yield changeset | StopIteration | Raise error

text \<open>
  Calling \<^verbatim>\<open>newton(dms, initial, regs, step, maxit, tol)\<close> runs none of its body:
  it returns a generator whose frame has not started.
\<close>

definition newton ::
  "datamodule list \<Rightarrow> addr \<Rightarrow> regularizer list \<Rightarrow> real \<Rightarrow> int \<Rightarrow> real \<Rightarrow> gen" where
  "newton dms initial regs step maxit tol =
     \<lparr>g_pc = Created, a_dms = dms, a_initial = initial, a_regs = regs, a_step = step,
      a_maxit = maxit, a_tol = tol, v_p = 0, v_nparams = 0, v_residuals = [],
      v_misfits = 0, v_goals = 0, v_i = 0\<rparr>"

text \<open>\<^verbatim>\<open>[d.data - d.get_predicted(p) for d in dms]\<close>\<close>

fun residuals_of :: "datamodule list \<Rightarrow> array \<Rightarrow> error + array list" where
  "residuals_of [] p = Inr []"
| "residuals_of (d # ds) p =
     (case np_sub (data d) (get_predicted d p) of
        Inl e \<Rightarrow> Inl e
      | Inr r \<Rightarrow> (case residuals_of ds p of Inl e \<Rightarrow> Inl e | Inr rs \<Rightarrow> Inr (r # rs)))"

text \<open>\<^verbatim>\<open>sum(d.get_misfit(res) for d, res in itertools.izip(dms, residuals))\<close>\<close>

definition misfit_of :: "datamodule list \<Rightarrow> array list \<Rightarrow> real" where
  "misfit_of dms residuals = py_sum (map (\<lambda>(d, res). get_misfit d res) (zip dms residuals))"

text \<open>\<^verbatim>\<open>misfit + sum(r.value(p) for r in regs)\<close>\<close>

definition goal_of :: "regularizer list \<Rightarrow> real \<Rightarrow> array \<Rightarrow> real" where
  "goal_of regs misfit p = misfit + py_sum (map (\<lambda>r. reg_value r p) regs)"

text \<open>Lines 103 to 107: the gradient of one iteration.\<close>

definition gradient_of ::
  "datamodule list \<Rightarrow> array list \<Rightarrow> regularizer list \<Rightarrow> array \<Rightarrow> array" where
  "gradient_of dms residuals regs p =
     foldl (\<lambda>gradient r. reg_sum_gradient r gradient p)
       (foldl (\<lambda>gradient (d, res). dm_sum_gradient d gradient p res)
          (zeros_like p) (zip dms residuals))
       regs"

text \<open>Lines 108 to 110: the Hessian of one iteration.\<close>

definition hessian_of ::
  "datamodule list \<Rightarrow> regularizer list \<Rightarrow> nat \<Rightarrow> array \<Rightarrow> matrix" where
  "hessian_of dms regs nparams p =
     foldl (\<lambda>hessian r. reg_sum_hessian r hessian p)
       (foldl (\<lambda>hessian d. dm_sum_hessian d hessian p) (zeros nparams nparams) dms)
       regs"

definition raise :: "error \<Rightarrow> gen \<Rightarrow> heap \<Rightarrow> outcome \<times> gen \<times> heap" where
  "raise e g h = (Raise e, g\<lparr>g_pc := Finished\<rparr>, h)"

definition stop :: "gen \<Rightarrow> heap \<Rightarrow> outcome \<times> gen \<times> heap" where
  "stop g h = (StopIteration, g\<lparr>g_pc := Finished\<rparr>, h)"

text \<open>
  The head of the \<^verbatim>\<open>for\<close> loop with \<^verbatim>\<open>i = v_i g\<close>: when \<^verbatim>\<open>xrange(maxit)\<close> is
  exhausted the generator returns, otherwise lines 103 to 119 run up to the
  \<^verbatim>\<open>yield\<close>.
\<close>

definition loop_head :: "linsys \<Rightarrow> gen \<Rightarrow> heap \<Rightarrow> outcome \<times> gen \<times> heap" where
  "loop_head linsys_solver g h =
     (if int (v_i g) < a_maxit g then
        (let p = cells h (v_p g);
             gradient = gradient_of (a_dms g) (v_residuals g) (a_regs g) p;
             hessian = hessian_of (a_dms g) (a_regs g) (v_nparams g) p
         in case linsys_solver hessian (scale (-1) gradient) of
              Inl e \<Rightarrow> raise e g h
            | Inr delta \<Rightarrow>
               (case np_iadd p (scale (a_step g) delta) of
                  Inl e \<Rightarrow> raise e g h
                | Inr p' \<Rightarrow>
                   (let h1 = store (v_p g) p' h
                    in case residuals_of (a_dms g) p' of
                         Inl e \<Rightarrow> raise e g h1
                       | Inr residuals \<Rightarrow>
                          (let misfit = misfit_of (a_dms g) residuals;
                               goal = goal_of (a_regs g) misfit p';
                               h2 = append_at (v_misfits g) misfit h1;
                               h3 = append_at (v_goals g) goal h2
                           in (Yield \<lparr>estimate = v_p g, cs_misfits = v_misfits g,
                                      cs_goals = v_goals g, cs_dms = a_dms g\<rparr>,
                               g\<lparr>g_pc := Suspended, v_residuals := residuals\<rparr>,
                               h3)))))
      else stop g h)"

text \<open>
  Lines 121 to 123, run when the generator is resumed after a \<^verbatim>\<open>yield\<close>:
  \<^verbatim>\<open>abs((goals[-1] - goals[-2])/goals[-2]) <= tol\<close>.
\<close>

definition converged :: "real list \<Rightarrow> real \<Rightarrow> error + bool" where
  "converged goals tol =
     (case py_index goals (-1) of
        Inl e \<Rightarrow> Inl e
      | Inr g1 \<Rightarrow>
         (case py_index goals (-2) of
            Inl e \<Rightarrow> Inl e
          | Inr g2 \<Rightarrow>
             (case py_div (g1 - g2) g2 of
                Inl e \<Rightarrow> Inl e
              | Inr q \<Rightarrow> Inr (\<bar>q\<bar> \<le> tol))))"

text \<open>
  One \<^verbatim>\<open>next()\<close> on the generator: the frame runs from where it stands to the next
  \<^verbatim>\<open>yield\<close>, to its end, or to an exception.
\<close>

definition next_gen :: "linsys \<Rightarrow> gen \<Rightarrow> heap \<Rightarrow> outcome \<times> gen \<times> heap" where
  "next_gen linsys_solver g h =
     (case g_pc g of
        Created \<Rightarrow>
          (if length (a_dms g) = 0
           then raise (ValueError ''Need at least 1 data module. None given'') g h
           else
            (let p = cells h (a_initial g)
             in case residuals_of (a_dms g) p of
                  Inl e \<Rightarrow> raise e g h
                | Inr residuals \<Rightarrow>
                   (let misfit = misfit_of (a_dms g) residuals;
                        goal = goal_of (a_regs g) misfit p;
                        (misfits, h1) = alloc [misfit] h;
                        (goals, h2) = alloc [goal] h1
                    in loop_head linsys_solver
                         (g\<lparr>v_p := a_initial g, v_nparams := length p,
                            v_residuals := residuals, v_misfits := misfits,
                            v_goals := goals, v_i := 0\<rparr>) h2)))
      | Suspended \<Rightarrow>
          (case converged (cells h (v_goals g)) (a_tol g) of
             Inl e \<Rightarrow> raise e g h
           | Inr True \<Rightarrow> stop g h
           | Inr False \<Rightarrow> loop_head linsys_solver (g\<lparr>v_i := Suc (v_i g)\<rparr>) h)
      | Finished \<Rightarrow> (StopIteration, g, h))"

subsection \<open>Consuming the generator\<close>

text \<open>
  \<^verbatim>\<open>for changeset in newton(...)\<close>: the caller pulls until the generator stops or
  raises. The trace keeps every changeset with the store as it was when the changeset
  was yielded. \<open>None\<close> is the ending of a run that was cut off by the fuel.
\<close>

datatype ending = Returned | Raised error

primrec run ::
  "nat \<Rightarrow> linsys \<Rightarrow> gen \<Rightarrow> heap \<Rightarrow> (changeset \<times> heap) list \<times> ending option \<times> heap" where
  "run 0 linsys_solver g h = ([], None, h)"
| "run (Suc n) linsys_solver g h =
     (case next_gen linsys_solver g h of
        (Yield c, g', h') \<Rightarrow>
          (case run n linsys_solver g' h' of (tr, e, hf) \<Rightarrow> ((c, h') # tr, e, hf))
      | (StopIteration, g', h') \<Rightarrow> ([], Some Returned, h')
      | (Raise e, g', h') \<Rightarrow> ([], Some (Raised e), h'))"

text \<open>What a caller reads through a changeset in a store.\<close>

definition view :: "heap \<Rightarrow> changeset \<Rightarrow> array \<times> real list \<times> real list" where
  "view h c = (cells h (estimate c), cells h (cs_misfits c), cells h (cs_goals c))"

subsection \<open>Reachable frames\<close>

text \<open>The changeset a frame yields, and the arguments it was created with.\<close>

definition cs_of :: "gen \<Rightarrow> changeset" where
  "cs_of g = \<lparr>estimate = v_p g, cs_misfits = v_misfits g, cs_goals = v_goals g, cs_dms = a_dms g\<rparr>"

definition args :: "gen \<Rightarrow> datamodule list \<times> addr \<times> regularizer list \<times> real \<times> int \<times> real" where
  "args g = (a_dms g, a_initial g, a_regs g, a_step g, a_maxit g, a_tol g)"

text \<open>
  What holds of a generator that has not started (its array is allocated) and of one
  suspended at the \<^verbatim>\<open>yield\<close> of iteration \<open>v_i g\<close>: \<^verbatim>\<open>p\<close> is the caller's array,
  the two history lists are distinct objects of their own with one entry per iteration
  and the seed, and \<^verbatim>\<open>residuals\<close> are those of the current contents of \<^verbatim>\<open>p\<close>.
\<close>

definition ginv :: "gen \<Rightarrow> heap \<Rightarrow> bool" where
  "ginv g h =
     (case g_pc g of
        Created \<Rightarrow> a_initial g < top h
      | Suspended \<Rightarrow>
          v_p g = a_initial g \<and> a_initial g < v_misfits g \<and> v_goals g = Suc (v_misfits g) \<and>
          v_goals g < top h \<and> int (v_i g) < a_maxit g \<and>
          length (cells h (v_misfits g)) = v_i g + 2 \<and>
          length (cells h (v_goals g)) = v_i g + 2 \<and>
          residuals_of (a_dms g) (cells h (v_p g)) = Inr (v_residuals g) \<and>
          v_nparams g = length (cells h (v_p g)) \<and> a_dms g \<noteq> []
      | Finished \<Rightarrow> True)"

text \<open>The same at the head of the loop, before the body of iteration \<open>v_i g\<close>.\<close>

definition linv :: "gen \<Rightarrow> heap \<Rightarrow> bool" where
  "linv g h =
     (v_p g = a_initial g \<and> a_initial g < v_misfits g \<and> v_goals g = Suc (v_misfits g) \<and>
      v_goals g < top h \<and>
      length (cells h (v_misfits g)) = Suc (v_i g) \<and>
      length (cells h (v_goals g)) = Suc (v_i g) \<and>
      residuals_of (a_dms g) (cells h (v_p g)) = Inr (v_residuals g) \<and>
      v_nparams g = length (cells h (v_p g)) \<and> a_dms g \<noteq> [])"

text \<open>The index of the iteration the next pull runs, and the address of \<^verbatim>\<open>misfits\<close>.\<close>

definition next_i :: "gen \<Rightarrow> nat" where
  "next_i g = (case g_pc g of Created \<Rightarrow> 0 | _ \<Rightarrow> Suc (v_i g))"

definition maddr :: "gen \<Rightarrow> heap \<Rightarrow> addr" where
  "maddr g h = (case g_pc g of Created \<Rightarrow> top h | _ \<Rightarrow> v_misfits g)"

text \<open>
  The frame at the head of the loop that the next pull reaches: after the seed
  (lines 93 to 101) for a new generator, after a stopping rule that does not stop for a
  suspended one.
\<close>

definition enter :: "gen \<Rightarrow> heap \<Rightarrow> (gen \<times> heap) option" where
  "enter g h =
     (case g_pc g of
        Created \<Rightarrow>
          (if length (a_dms g) = 0 then None
           else
            (let p = cells h (a_initial g)
             in case residuals_of (a_dms g) p of
                  Inl e \<Rightarrow> None
                | Inr residuals \<Rightarrow>
                   (let misfit = misfit_of (a_dms g) residuals;
                        goal = goal_of (a_regs g) misfit p;
                        (misfits, h1) = alloc [misfit] h;
                        (goals, h2) = alloc [goal] h1
                    in Some (g\<lparr>v_p := a_initial g, v_nparams := length p,
                            v_residuals := residuals, v_misfits := misfits,
                            v_goals := goals, v_i := 0\<rparr>, h2))))
      | Suspended \<Rightarrow>
          (case converged (cells h (v_goals g)) (a_tol g) of
             Inl e \<Rightarrow> None
           | Inr True \<Rightarrow> None
           | Inr False \<Rightarrow> Some (g\<lparr>v_i := Suc (v_i g)\<rparr>, h))
      | Finished \<Rightarrow> None)"

subsection \<open>A test problem\<close>

text \<open>
  One data module with the forward model \<^verbatim>\<open>predict(p) = [p[0]]\<close>, the observation
  5, the squared residual as misfit, and its Gauss-Newton gradient and Hessian; a solver
  of one-by-one systems that raises on a singular matrix; a store holding the initial
  array \<^verbatim>\<open>[0.0]\<close> at address 0.
\<close>

definition dm5 :: datamodule where
  "dm5 = \<lparr>data = [5], get_predicted = (\<lambda>p. [hd p]),
          get_misfit = (\<lambda>res. py_sum (map (\<lambda>x. x * x) res)),
          dm_sum_gradient = (\<lambda>gradient p res. map2 (+) gradient (scale (-2) res)),
          dm_sum_hessian = (\<lambda>hessian p. map (map (\<lambda>x. x + 2)) hessian)\<rparr>"

definition solve1 :: linsys where
  "solve1 A b =
     (case (A, b) of
        ([[a]], [y]) \<Rightarrow> if a = 0 then Inl LinAlgError else Inr [y / a]
      | _ \<Rightarrow> Inl LinAlgError)"

definition h0 :: heap where
  "h0 = \<lparr>cells = (\<lambda>a. []) (0 := [0]), top = 1\<rparr>"


subsection \<open>One iteration as the specification words it\<close>

text \<open>
  Steps 3 to 7 of the algorithm of the specification: the gradient (length
  \<open>nparams\<close>) and the Hessian (\<open>nparams\<close> by \<open>nparams\<close>) start at zero; the
  gradient contribution of every data module, with its residual (observed minus
  predicted data) at the current parameters, and then of every regularizer is folded
  into the gradient; the Hessian contributions likewise; the system
  \<open>Hessian \<cdot> \<Delta>p = - gradient\<close> is solved and the parameters become
  \<open>params + stepSize \<cdot> \<Delta>p\<close>.
\<close>

fun accumulate_data_gradients :: "datamodule list \<Rightarrow> array \<Rightarrow> array \<Rightarrow> error + array" where
  "accumulate_data_gradients [] params gradient = Inr gradient"
| "accumulate_data_gradients (d # ds) params gradient =
     (case np_sub (data d) (get_predicted d params) of
        Inl e \<Rightarrow> Inl e
      | Inr residual \<Rightarrow>
          accumulate_data_gradients ds params (dm_sum_gradient d gradient params residual))"

fun accumulate_reg_gradients :: "regularizer list \<Rightarrow> array \<Rightarrow> array \<Rightarrow> array" where
  "accumulate_reg_gradients [] params gradient = gradient"
| "accumulate_reg_gradients (r # rs) params gradient =
     accumulate_reg_gradients rs params (reg_sum_gradient r gradient params)"

fun accumulate_data_hessians :: "datamodule list \<Rightarrow> array \<Rightarrow> matrix \<Rightarrow> matrix" where
  "accumulate_data_hessians [] params hessian = hessian"
| "accumulate_data_hessians (d # ds) params hessian =
     accumulate_data_hessians ds params (dm_sum_hessian d hessian params)"

fun accumulate_reg_hessians :: "regularizer list \<Rightarrow> array \<Rightarrow> matrix \<Rightarrow> matrix" where
  "accumulate_reg_hessians [] params hessian = hessian"
| "accumulate_reg_hessians (r # rs) params hessian =
     accumulate_reg_hessians rs params (reg_sum_hessian r hessian params)"

definition spec_iteration ::
  "linsys \<Rightarrow> datamodule list \<Rightarrow> regularizer list \<Rightarrow> real \<Rightarrow> nat \<Rightarrow> array \<Rightarrow> error + array" where
  "spec_iteration solve dataModules regularizers stepSize nparams params =
     (case accumulate_data_gradients dataModules params (replicate nparams 0) of
        Inl e \<Rightarrow> Inl e
      | Inr g \<Rightarrow>
         (let gradient = accumulate_reg_gradients regularizers params g;
              hessian = accumulate_reg_hessians regularizers params
                          (accumulate_data_hessians dataModules params
                             (replicate nparams (replicate nparams 0)))
          in case solve hessian (map uminus gradient) of
               Inl e \<Rightarrow> Inl e
             | Inr delta \<Rightarrow> np_iadd params (map (\<lambda>x. stepSize * x) delta)))"

subsection \<open>The names of the module\<close>

text \<open>
  The solvers that the docstring of the module lists (lines 20 to 23), and the names
  that the module binds at top level besides those every module has: its imports, its
  assignments and its two \<^verbatim>\<open>def\<close> statements.
\<close>

definition documented_solvers :: "string list" where
  "documented_solvers = [''newton'', ''lev_marq'']"

definition module_globals :: "string list" where
  "module_globals =
     [''__author__'', ''__date__'', ''numpy'', ''dot_product'', ''linsys_solver'',
      ''itertools'', ''logger'', ''log'', ''newton'', ''_test'']"

subsection \<open>The linear solver\<close>

text \<open>
  \<^verbatim>\<open>numpy.linalg.solve\<close> is a library function. Modelled from its documentation, in
  exact arithmetic: it raises \<^verbatim>\<open>LinAlgError\<close> when the matrix is not square or is
  singular, \<^verbatim>\<open>ValueError\<close> when the right-hand side does not have the length of the
  matrix, and otherwise returns the solution of the system (here by Cramer's rule, with
  the determinant expanded along the first row). No other condition makes it fail: a
  matrix of full rank is solved whatever its condition number.
\<close>

definition square :: "matrix \<Rightarrow> bool" where
  "square a = list_all (\<lambda>r. length r = length a) a"

definition del_col :: "nat \<Rightarrow> real list \<Rightarrow> real list" where
  "del_col j r = take j r @ drop (Suc j) r"

function det :: "matrix \<Rightarrow> real" where
  "det [] = 1"
| "det (r # rs) =
     sum_list (map (\<lambda>j. (- 1) ^ j * r ! j * det (map (del_col j) rs)) [0..<length r])"
  by pat_completeness auto
termination
  by (relation "measure length") auto

definition set_col :: "nat \<Rightarrow> array \<Rightarrow> matrix \<Rightarrow> matrix" where
  "set_col j b a = map2 (\<lambda>r y. r[j := y]) a b"

definition linalg_solve :: linsys where
  "linalg_solve a b =
     (if \<not> square a then Inl LinAlgError
      else if length b \<noteq> length a
        then Inl (ValueError ''solve: Input operand 1 has a mismatch in its core dimension 0'')
      else if det a = 0 then Inl LinAlgError
      else Inr (map (\<lambda>j. det (set_col j b a) / det a) [0..<length a]))"





subsection \<open>More test problems\<close>



definition dm_off :: datamodule where
  "dm_off = \<lparr>data = [0], get_predicted = (\<lambda>p. [hd p]),
          get_misfit = (\<lambda>res. py_sum (map (\<lambda>x. x * x) res)),
          dm_sum_gradient = (\<lambda>gradient p res. map2 (+) gradient [-2]),
          dm_sum_hessian = (\<lambda>hessian p. map (map (\<lambda>x. x + 2)) hessian)\<rparr>"

section \<open>Properties\<close>

subsection \<open>One pull\<close>

lemma loop_head_Yield:
  assumes "loop_head S g h = (Yield c, g', h')"
  shows "int (v_i g) < a_maxit g \<and>
    (\<exists>delta p' rs.
       S (hessian_of (a_dms g) (a_regs g) (v_nparams g) (cells h (v_p g)))
         (scale (-1) (gradient_of (a_dms g) (v_residuals g) (a_regs g) (cells h (v_p g)))) = Inr delta \<and>
       np_iadd (cells h (v_p g)) (scale (a_step g) delta) = Inr p' \<and>
       residuals_of (a_dms g) p' = Inr rs \<and>
       c = cs_of g \<and>
       g' = g\<lparr>g_pc := Suspended, v_residuals := rs\<rparr> \<and>
       h' = append_at (v_goals g) (goal_of (a_regs g) (misfit_of (a_dms g) rs) p')
              (append_at (v_misfits g) (misfit_of (a_dms g) rs) (store (v_p g) p' h)))"
  using assms
  by (auto simp: loop_head_def Let_def raise_def stop_def cs_of_def split: if_splits sum.splits)

lemma np_iadd_length: "np_iadd p v = Inr p' \<Longrightarrow> length p' = length p"
  by (auto simp: np_iadd_def split: if_splits)

lemma next_gen_enter:
  assumes "next_gen S g h = (Yield c, g', h')"
  shows "\<exists>gl hl. enter g h = Some (gl, hl) \<and> loop_head S gl hl = (Yield c, g', h')"
  using assms
  by (auto simp: next_gen_def enter_def Let_def raise_def stop_def
      split: pc.splits if_splits sum.splits bool.splits prod.splits)

lemma enter_linv:
  assumes "ginv g h" "enter g h = Some (gl, hl)"
  shows "linv gl hl \<and> args gl = args g \<and> v_i gl = next_i g \<and> v_misfits gl = maddr g h \<and>
         cells hl (a_initial g) = cells h (a_initial g) \<and> top h \<le> top hl \<and>
         (\<forall>a < top h. cells hl a = cells h a)"
  using assms
  by (auto simp: ginv_def enter_def linv_def args_def next_i_def maddr_def alloc_def Let_def
      split: pc.splits if_splits sum.splits bool.splits prod.splits)

lemma loop_head_ginv:
  assumes "linv g h" "loop_head S g h = (Yield c, g', h')"
  shows "ginv g' h' \<and> g_pc g' = Suspended \<and> args g' = args g \<and> v_i g' = v_i g \<and>
         v_misfits g' = v_misfits g \<and> c = cs_of g' \<and> top h' = top h"
  using loop_head_Yield[OF assms(2)] assms(1)
  by (auto simp: ginv_def linv_def args_def cs_of_def append_at_def store_def
      dest: np_iadd_length)

lemma next_gen_step:
  assumes "ginv g h" "next_gen S g h = (Yield c, g', h')"
  shows "\<exists>gl hl. enter g h = Some (gl, hl) \<and> loop_head S gl hl = (Yield c, g', h') \<and>
           ginv g' h' \<and> g_pc g' = Suspended \<and> args g' = args g \<and> v_i g' = next_i g \<and>
           v_misfits g' = maddr g h"
proof -
  from next_gen_enter[OF assms(2)] obtain gl hl where
    e: "enter g h = Some (gl, hl)" and l: "loop_head S gl hl = (Yield c, g', h')" by blast
  from enter_linv[OF assms(1) e] loop_head_ginv[OF _ l] e l show ?thesis by auto
qed

lemma run_nth:
  assumes "ginv g h" "run n S g h = (tr, e, hf)" "k < length tr"
  shows "\<exists>gp hp gl hl g'.
           hp = (if k = 0 then h else snd (tr ! (k - 1))) \<and>
           ginv gp hp \<and>
           (k = 0 \<longrightarrow> gp = g) \<and> (0 < k \<longrightarrow> g_pc gp = Suspended) \<and>
           args gp = args g \<and> next_i gp = next_i g + k \<and>
           maddr gp hp = maddr g h \<and>
           enter gp hp = Some (gl, hl) \<and>
           loop_head S gl hl = (Yield (fst (tr ! k)), g', snd (tr ! k)) \<and>
           ginv g' (snd (tr ! k)) \<and> g_pc g' = Suspended \<and> args g' = args g \<and>
           v_i g' = next_i g + k \<and> v_misfits g' = maddr g h \<and>
           k < n \<and> run (n - Suc k) S g' (snd (tr ! k)) = (drop (Suc k) tr, e, hf)"
  using assms
proof (induction n arbitrary: g h tr k)
  case 0
  then show ?case by simp
next
  case (Suc n)
  from Suc.prems(2,3) obtain c g1 h1 tr' where
    ng: "next_gen S g h = (Yield c, g1, h1)" and
    r: "run n S g1 h1 = (tr', e, hf)" and tr: "tr = (c, h1) # tr'"
    by (auto split: prod.splits outcome.splits)
  from next_gen_step[OF Suc.prems(1) ng] obtain gl hl where
    st: "enter g h = Some (gl, hl)" "loop_head S gl hl = (Yield c, g1, h1)"
        "ginv g1 h1" "g_pc g1 = Suspended" "args g1 = args g" "v_i g1 = next_i g"
        "v_misfits g1 = maddr g h"
    by blast
  show ?case
  proof (cases k)
    case 0
    with st r tr Suc.prems(1) show ?thesis by auto
  next
    case (Suc k')
    with Suc.prems(3) tr have k': "k' < length tr'" by simp
    from Suc.IH[OF st(3) r k'] obtain gp hp gl' hl' g' where
      ih: "hp = (if k' = 0 then h1 else snd (tr' ! (k' - 1)))"
          "ginv gp hp"
          "k' = 0 \<longrightarrow> gp = g1" "0 < k' \<longrightarrow> g_pc gp = Suspended"
          "args gp = args g1" "next_i gp = next_i g1 + k'"
          "maddr gp hp = maddr g1 h1"
          "enter gp hp = Some (gl', hl')"
          "loop_head S gl' hl' = (Yield (fst (tr' ! k')), g', snd (tr' ! k'))"
          "ginv g' (snd (tr' ! k'))" "g_pc g' = Suspended" "args g' = args g1"
          "v_i g' = next_i g1 + k'" "v_misfits g' = maddr g1 h1"
          "k' < n" "run (n - Suc k') S g' (snd (tr' ! k')) = (drop (Suc k') tr', e, hf)"
      by blast
    have hp: "hp = (if k = 0 then h else snd (tr ! (k - 1)))"
      using Suc tr ih(1) by (cases k') auto
    have ni: "next_i g1 = Suc (next_i g)" using st(4,6) by (simp add: next_i_def)
    have ma: "maddr g1 h1 = maddr g h" using st(4,7) by (simp add: maddr_def)
    have sp: "g_pc gp = Suspended" using ih(3,4) st(4) by (cases k') auto
    have nth: "tr ! k = tr' ! k'" "drop (Suc k) tr = drop (Suc k') tr'" "k \<noteq> 0"
      using Suc tr by auto
    show ?thesis
      apply (rule exI[of _ gp], rule exI[of _ hp], rule exI[of _ gl'], rule exI[of _ hl'],
          rule exI[of _ g'])
      unfolding nth
      using ih(2,5-) st(5) ni ma sp hp Suc by simp
  qed
qed

lemma enter_Created:
  assumes "g_pc g = Created" "a_initial g < top h" "enter g h = Some (gl, hl)"
  shows "\<exists>rs. residuals_of (a_dms g) (cells h (a_initial g)) = Inr rs \<and>
           cells hl (top h) = [misfit_of (a_dms g) rs] \<and>
           cells hl (Suc (top h)) =
             [goal_of (a_regs g) (misfit_of (a_dms g) rs) (cells h (a_initial g))] \<and>
           top hl = Suc (Suc (top h)) \<and> a_dms g \<noteq> [] \<and>
           (\<forall>a. a < top h \<longrightarrow> cells hl a = cells h a)"
  using assms
  by (auto simp: enter_def alloc_def Let_def split: if_splits sum.splits)

lemma enter_Suspended:
  assumes "g_pc g = Suspended" "enter g h = Some (gl, hl)"
  shows "hl = h \<and> converged (cells h (v_goals g)) (a_tol g) = Inr False \<and>
         gl = g\<lparr>v_i := Suc (v_i g)\<rparr>"
  using assms
  by (auto simp: enter_def split: sum.splits bool.splits)

lemma loop_head_facts:
  assumes "linv g h" "loop_head S g h = (Yield c, g', h')"
  shows "int (v_i g) < a_maxit g \<and>
    (\<exists>delta rs.
       S (hessian_of (a_dms g) (a_regs g) (length (cells h (a_initial g))) (cells h (a_initial g)))
         (scale (-1) (gradient_of (a_dms g) (v_residuals g) (a_regs g) (cells h (a_initial g))))
         = Inr delta \<and>
       np_iadd (cells h (a_initial g)) (scale (a_step g) delta) = Inr (cells h' (a_initial g)) \<and>
       residuals_of (a_dms g) (cells h' (a_initial g)) = Inr rs \<and>
       v_residuals g' = rs \<and>
       cells h' (v_misfits g) = cells h (v_misfits g) @ [misfit_of (a_dms g) rs] \<and>
       cells h' (Suc (v_misfits g)) =
         cells h (Suc (v_misfits g)) @
           [goal_of (a_regs g) (misfit_of (a_dms g) rs) (cells h' (a_initial g))] \<and>
       (\<forall>a. a \<noteq> a_initial g \<longrightarrow> a \<noteq> v_misfits g \<longrightarrow> a \<noteq> Suc (v_misfits g) \<longrightarrow>
            cells h' a = cells h a) \<and>
       top h' = top h)"
  using loop_head_Yield[OF assms(2)] assms(1)
  by (auto simp: linv_def append_at_def store_def)

lemma ginv_newton: "initial < top h \<Longrightarrow> ginv (newton dms initial regs step maxit tol) h"
  by (simp add: ginv_def newton_def)

lemma args_newton: "args (newton dms initial regs step maxit tol) = (dms, initial, regs, step, maxit, tol)"
  by (simp add: args_def newton_def)

lemma trace_step:
  assumes "initial < top h"
    and "run n S (newton dms initial regs step maxit tol) h = (tr, e, hf)"
    and "k < length tr"
  shows "\<exists>hp hk g' rsp delta rs.
           hp = (if k = 0 then h else snd (tr ! (k - 1))) \<and> hk = snd (tr ! k) \<and>
           fst (tr ! k) =
             \<lparr>estimate = initial, cs_misfits = top h, cs_goals = Suc (top h), cs_dms = dms\<rparr> \<and>
           int k < maxit \<and> dms \<noteq> [] \<and>
           residuals_of dms (cells hp initial) = Inr rsp \<and>
           S (hessian_of dms regs (length (cells hp initial)) (cells hp initial))
             (scale (-1) (gradient_of dms rsp regs (cells hp initial))) = Inr delta \<and>
           np_iadd (cells hp initial) (scale step delta) = Inr (cells hk initial) \<and>
           residuals_of dms (cells hk initial) = Inr rs \<and>
           cells hk (top h) =
             (if k = 0 then [misfit_of dms rsp] else cells hp (top h)) @ [misfit_of dms rs] \<and>
           cells hk (Suc (top h)) =
             (if k = 0 then [goal_of regs (misfit_of dms rsp) (cells hp initial)]
              else cells hp (Suc (top h))) @
             [goal_of regs (misfit_of dms rs) (cells hk initial)] \<and>
           (0 < k \<longrightarrow> converged (cells hp (Suc (top h))) tol = Inr False) \<and>
           length (cells hk (top h)) = k + 2 \<and> length (cells hk (Suc (top h))) = k + 2 \<and>
           g_pc g' = Suspended \<and> args g' = (dms, initial, regs, step, maxit, tol) \<and>
           v_p g' = initial \<and> v_misfits g' = top h \<and> v_goals g' = Suc (top h) \<and>
           v_i g' = k \<and> v_residuals g' = rs \<and> v_nparams g' = length (cells hk initial) \<and>
           k < n \<and> run (n - Suc k) S g' hk = (drop (Suc k) tr, e, hf)"
proof -
  let ?g = "newton dms initial regs step maxit tol"
  have g0: "next_i ?g = 0" "maddr ?g h = top h" "g_pc ?g = Created"
    by (simp_all add: next_i_def maddr_def newton_def)
  from run_nth[OF ginv_newton[OF assms(1)] assms(2,3)] obtain gp hp gl hl g' where
    f: "hp = (if k = 0 then h else snd (tr ! (k - 1)))"
       "ginv gp hp" "k = 0 \<longrightarrow> gp = ?g" "0 < k \<longrightarrow> g_pc gp = Suspended"
       "args gp = args ?g" "next_i gp = k" "maddr gp hp = top h"
       "enter gp hp = Some (gl, hl)"
       "loop_head S gl hl = (Yield (fst (tr ! k)), g', snd (tr ! k))"
       "ginv g' (snd (tr ! k))" "g_pc g' = Suspended" "args g' = args ?g"
       "v_i g' = k" "v_misfits g' = top h"
       "k < n" "run (n - Suc k) S g' (snd (tr ! k)) = (drop (Suc k) tr, e, hf)"
    unfolding g0 by auto
  let ?hk = "snd (tr ! k)"
  from enter_linv[OF f(2,8)] have
    el: "linv gl hl" "args gl = args gp" "v_i gl = k" "v_misfits gl = top h"
        "cells hl (a_initial gp) = cells hp (a_initial gp)"
    using f(6,7) by auto
  have ag: "a_dms gp = dms" "a_initial gp = initial" "a_regs gp = regs" "a_step gp = step"
           "a_maxit gp = maxit" "a_tol gp = tol"
    using f(5) unfolding args_newton by (simp_all add: args_def)
  have agl: "a_dms gl = dms" "a_initial gl = initial" "a_regs gl = regs" "a_step gl = step"
           "a_maxit gl = maxit" "a_tol gl = tol"
    using el(2) f(5) unfolding args_newton by (simp_all add: args_def)
  have ag': "a_dms g' = dms" "a_initial g' = initial" "a_regs g' = regs" "a_step g' = step"
           "a_maxit g' = maxit" "a_tol g' = tol"
    using f(12) unfolding args_newton by (simp_all add: args_def)
  from loop_head_facts[OF el(1) f(9)] obtain delta rs where
    lf: "int k < maxit"
        "S (hessian_of dms regs (length (cells hl initial)) (cells hl initial))
           (scale (-1) (gradient_of dms (v_residuals gl) regs (cells hl initial))) = Inr delta"
        "np_iadd (cells hl initial) (scale step delta) = Inr (cells ?hk initial)"
        "residuals_of dms (cells ?hk initial) = Inr rs" "v_residuals g' = rs"
        "cells ?hk (top h) = cells hl (top h) @ [misfit_of dms rs]"
        "cells ?hk (Suc (top h)) = cells hl (Suc (top h)) @
           [goal_of regs (misfit_of dms rs) (cells ?hk initial)]"
    unfolding agl el(3,4) by blast
  have cs: "fst (tr ! k) = \<lparr>estimate = initial, cs_misfits = top h, cs_goals = Suc (top h), cs_dms = dms\<rparr>"
    using loop_head_ginv[OF el(1) f(9)] f(10,11,14) ag'
    by (simp add: cs_of_def ginv_def)
  have gf: "v_p g' = initial" "v_goals g' = Suc (top h)"
           "v_nparams g' = length (cells ?hk initial)"
           "length (cells ?hk (top h)) = k + 2" "length (cells ?hk (Suc (top h))) = k + 2"
    using f(10,11,13,14) ag' by (auto simp: ginv_def)
  have rl: "residuals_of dms (cells hl initial) = Inr (v_residuals gl)" "dms \<noteq> []"
    using el(1) agl by (auto simp: linv_def)
  have hl: "cells hl initial = cells hp initial" using el(5) ag by simp
  have pre: "cells hl (top h) = (if k = 0 then [misfit_of dms (v_residuals gl)] else cells hp (top h))
     \<and> cells hl (Suc (top h)) = (if k = 0 then [goal_of regs (misfit_of dms (v_residuals gl)) (cells hp initial)]
              else cells hp (Suc (top h)))
     \<and> (0 < k \<longrightarrow> converged (cells hp (Suc (top h))) tol = Inr False)"
  proof (cases "k = 0")
    case True
    then have "gp = ?g" "hp = h" using f(1,3) by auto
    with enter_Created[OF _ _ f(8)] assms(1) rl hl True show ?thesis
      by (auto simp: newton_def)
  next
    case False
    then have sp: "g_pc gp = Suspended" using f(4) by simp
    from enter_Suspended[OF sp f(8)] f(2,7) sp ag False show ?thesis
      by (auto simp: ginv_def maddr_def)
  qed
  show ?thesis
    apply (rule exI[of _ hp], rule exI[of _ ?hk], rule exI[of _ g'],
        rule exI[of _ "v_residuals gl"], rule exI[of _ delta], rule exI[of _ rs])
    using f(1,11,13-16) cs lf rl gf pre f(12) unfolding hl args_newton
    by simp
qed

subsection \<open>Runs of the solver\<close>

lemma hd_take2: "take 2 xs = [a, b] \<Longrightarrow> hd xs = a"
  by (cases xs) auto

lemma trace_cs:
  assumes "initial < top h"
    and "run n S (newton dms initial regs step maxit tol) h = (tr, e, hf)"
    and "k < length tr"
  shows "fst (tr ! k) =
           \<lparr>estimate = initial, cs_misfits = top h, cs_goals = Suc (top h), cs_dms = dms\<rparr>"
  using trace_step[OF assms] by blast

lemma trace_len:
  assumes "initial < top h"
    and "run n S (newton dms initial regs step maxit tol) h = (tr, e, hf)"
    and "k < length tr"
  shows "length (cells (snd (tr ! k)) (top h)) = k + 2"
    and "length (cells (snd (tr ! k)) (Suc (top h))) = k + 2"
  using trace_step[OF assms] by blast+

lemma trace_seed:
  assumes "initial < top h"
    and "run n S (newton dms initial regs step maxit tol) h = (tr, e, hf)"
    and "0 < length tr"
  shows "\<exists>rs m gl. residuals_of dms (cells h initial) = Inr rs \<and>
           cells (snd (tr ! 0)) (top h) = [misfit_of dms rs, m] \<and>
           cells (snd (tr ! 0)) (Suc (top h)) =
             [goal_of regs (misfit_of dms rs) (cells h initial), gl]"
proof -
  from trace_step[OF assms] obtain rsp rs where
    "residuals_of dms (cells h initial) = Inr rsp"
    "cells (snd (tr ! 0)) (top h) = [misfit_of dms rsp] @ [misfit_of dms rs]"
    "cells (snd (tr ! 0)) (Suc (top h)) =
       [goal_of regs (misfit_of dms rsp) (cells h initial)] @
       [goal_of regs (misfit_of dms rs) (cells (snd (tr ! 0)) initial)]"
    by (elim exE conjE) simp
  then show ?thesis by simp
qed

lemma trace_append:
  assumes "initial < top h"
    and "run n S (newton dms initial regs step maxit tol) h = (tr, e, hf)"
    and "Suc k < length tr"
  shows "\<exists>rs. residuals_of dms (cells (snd (tr ! Suc k)) initial) = Inr rs \<and>
           cells (snd (tr ! Suc k)) (top h) = cells (snd (tr ! k)) (top h) @ [misfit_of dms rs] \<and>
           cells (snd (tr ! Suc k)) (Suc (top h)) =
             cells (snd (tr ! k)) (Suc (top h)) @
               [goal_of regs (misfit_of dms rs) (cells (snd (tr ! Suc k)) initial)]"
proof -
  from trace_step[OF assms] obtain hp rs where
    "hp = (if Suc k = 0 then h else snd (tr ! (Suc k - 1)))"
    "residuals_of dms (cells (snd (tr ! Suc k)) initial) = Inr rs"
    "cells (snd (tr ! Suc k)) (top h) =
       (if Suc k = 0 then [] else cells hp (top h)) @ [misfit_of dms rs]"
    "cells (snd (tr ! Suc k)) (Suc (top h)) =
       (if Suc k = 0 then [] else cells hp (Suc (top h))) @
         [goal_of regs (misfit_of dms rs) (cells (snd (tr ! Suc k)) initial)]"
    by (elim exE conjE) simp
  then show ?thesis by simp
qed

lemma hist_prefix:
  assumes "initial < top h"
    and "run n S (newton dms initial regs step maxit tol) h = (tr, e, hf)"
    and "k < length tr" and "j \<le> k"
  shows "cells (snd (tr ! j)) (top h) = take (j + 2) (cells (snd (tr ! k)) (top h)) \<and>
         cells (snd (tr ! j)) (Suc (top h)) = take (j + 2) (cells (snd (tr ! k)) (Suc (top h)))"
  using assms(3,4)
proof (induction k)
  case 0
  with trace_len[OF assms(1,2), of 0] show ?case by simp
next
  case (Suc k)
  show ?case
  proof (cases "j = Suc k")
    case True
    with trace_len[OF assms(1,2) Suc.prems(1)] show ?thesis by simp
  next
    case False
    then have jk: "j \<le> k" "k < length tr" using Suc.prems by auto
    note len = trace_len[OF assms(1,2) jk(2)]
    from trace_append[OF assms(1,2) Suc.prems(1)] obtain m gl where
      ap: "cells (snd (tr ! Suc k)) (top h) = cells (snd (tr ! k)) (top h) @ [m]"
          "cells (snd (tr ! Suc k)) (Suc (top h)) = cells (snd (tr ! k)) (Suc (top h)) @ [gl]"
      by blast
    from Suc.IH[OF jk(2,1)] jk(1) len show ?thesis unfolding ap by simp
  qed
qed

lemma goal_of_Nil: "goal_of [] m p = m"
  by (simp add: goal_of_def py_sum_def)

lemma trace_goals_eq:
  assumes "initial < top h"
    and "run n S (newton dms initial [] step maxit tol) h = (tr, e, hf)"
    and "k < length tr"
  shows "cells (snd (tr ! k)) (Suc (top h)) = cells (snd (tr ! k)) (top h)"
  using assms(3)
proof (induction k)
  case 0
  from trace_step[OF assms(1,2) 0] show ?case
    by (elim exE conjE) (simp add: goal_of_Nil)
next
  case (Suc k)
  then have "k < length tr" by simp
  from Suc.IH[OF this] trace_append[OF assms(1,2) Suc.prems] show ?case
    by (auto simp: goal_of_Nil)
qed

lemma converged_len:
  assumes "length gs = k + 2"
  shows "converged gs tol =
           (if gs ! k = 0 then Inl ZeroDivisionError
            else Inr (\<bar>(gs ! Suc k - gs ! k) / gs ! k\<bar> \<le> tol))"
proof -
  have "py_index gs (-1) = Inr (gs ! Suc k)" "py_index gs (-2) = Inr (gs ! k)"
    using assms by (simp_all add: py_index_def Let_def nat_add_distrib)
  then show ?thesis by (simp add: converged_def py_div_def)
qed

lemma next_gen_Suspended:
  assumes "g_pc g = Suspended"
  shows "next_gen S g h =
           (case converged (cells h (v_goals g)) (a_tol g) of
              Inl e \<Rightarrow> raise e g h
            | Inr True \<Rightarrow> stop g h
            | Inr False \<Rightarrow> loop_head S (g\<lparr>v_i := Suc (v_i g)\<rparr>) h)"
  using assms by (simp add: next_gen_def)

lemma loop_head_exhausted:
  "\<not> int (v_i g) < a_maxit g \<Longrightarrow> loop_head S g h = stop g h"
  by (simp add: loop_head_def)

lemma loop_head_no_stop:
  assumes "int (v_i g) < a_maxit g"
  shows "fst (loop_head S g h) \<noteq> StopIteration"
  using assms
  by (auto simp: loop_head_def Let_def raise_def split: sum.splits)


lemma run_Suc_cases:
  assumes "run (Suc m) S g h = (tr, e, hf)"
  shows "(case next_gen S g h of
            (Yield c, g2, h2) \<Rightarrow> tr \<noteq> [] \<and> snd (hd tr) = h2
          | (StopIteration, g2, h2) \<Rightarrow> tr = [] \<and> e = Some Returned \<and> hf = h2
          | (Raise err, g2, h2) \<Rightarrow> tr = [] \<and> e = Some (Raised err) \<and> hf = h2)"
  using assms by (auto split: prod.splits outcome.splits)

lemma trace_tail:
  assumes "initial < top h"
    and "run n S (newton dms initial regs step maxit tol) h = (tr, e, hf)"
    and "k < length tr" and "Suc k < n"
  shows "\<exists>g'. g_pc g' = Suspended \<and> a_dms g' = dms \<and> a_initial g' = initial \<and>
           a_regs g' = regs \<and> a_step g' = step \<and> a_maxit g' = maxit \<and> a_tol g' = tol \<and>
           v_p g' = initial \<and> v_misfits g' = top h \<and> v_goals g' = Suc (top h) \<and>
           v_i g' = k \<and> residuals_of dms (cells (snd (tr ! k)) initial) = Inr (v_residuals g') \<and>
           v_nparams g' = length (cells (snd (tr ! k)) initial) \<and>
           (case next_gen S g' (snd (tr ! k)) of
              (Yield c, g2, h2) \<Rightarrow> Suc k < length tr
            | (StopIteration, g2, h2) \<Rightarrow> length tr = Suc k \<and> e = Some Returned \<and> hf = h2
            | (Raise err, g2, h2) \<Rightarrow> length tr = Suc k \<and> e = Some (Raised err) \<and> hf = h2)"
proof -
  from trace_step[OF assms(1,2,3)] obtain g' where
    g: "g_pc g' = Suspended" "args g' = (dms, initial, regs, step, maxit, tol)"
       "v_p g' = initial" "v_misfits g' = top h" "v_goals g' = Suc (top h)" "v_i g' = k"
       "residuals_of dms (cells (snd (tr ! k)) initial) = Inr (v_residuals g')"
       "v_nparams g' = length (cells (snd (tr ! k)) initial)"
       "run (n - Suc k) S g' (snd (tr ! k)) = (drop (Suc k) tr, e, hf)"
    by (elim exE conjE) simp
  from assms(4) obtain m where m: "n - Suc k = Suc m" by (cases "n - Suc k") auto
  have d: "(drop (Suc k) tr = []) = (length tr = Suc k)" "(drop (Suc k) tr \<noteq> []) = (Suc k < length tr)"
    using assms(3) by auto
  from run_Suc_cases[OF g(9)[unfolded m]]
  have "(case next_gen S g' (snd (tr ! k)) of
              (Yield c, g2, h2) \<Rightarrow> Suc k < length tr
            | (StopIteration, g2, h2) \<Rightarrow> length tr = Suc k \<and> e = Some Returned \<and> hf = h2
            | (Raise err, g2, h2) \<Rightarrow> length tr = Suc k \<and> e = Some (Raised err) \<and> hf = h2)"
    unfolding d using assms(3) by (auto split: prod.splits outcome.splits)
  with g(1-8) show ?thesis by (auto simp: args_def)
qed

lemma trace_view:
  assumes "initial < top h"
    and "run n S (newton dms initial regs step maxit tol) h = (tr, e, hf)"
    and "k < length tr"
    and "view (snd (tr ! k)) (fst (tr ! k)) = (p, ms, gs)"
  shows "p = cells (snd (tr ! k)) initial" "ms = cells (snd (tr ! k)) (top h)"
    "gs = cells (snd (tr ! k)) (Suc (top h))" "length ms = k + 2" "length gs = k + 2"
  using trace_cs[OF assms(1,2,3)] trace_len[OF assms(1,2,3)] assms(4)
  by (auto simp: view_def)

lemma after_yield:
  assumes "initial < top h"
    and "run n S (newton dms initial regs step maxit tol) h = (tr, e, hf)"
    and "k < length tr" and "Suc k < n"
    and "gs = cells (snd (tr ! k)) (Suc (top h))"
  shows "gs ! k = 0 \<longrightarrow>
           length tr = Suc k \<and> e = Some (Raised ZeroDivisionError) \<and> hf = snd (tr ! k)"
    and "gs ! k \<noteq> 0 \<longrightarrow> \<bar>(gs ! Suc k - gs ! k) / gs ! k\<bar> \<le> tol \<longrightarrow>
           length tr = Suc k \<and> e = Some Returned \<and> hf = snd (tr ! k)"
    and "gs ! k \<noteq> 0 \<longrightarrow> \<not> \<bar>(gs ! Suc k - gs ! k) / gs ! k\<bar> \<le> tol \<longrightarrow> maxit \<le> int (Suc k) \<longrightarrow>
           length tr = Suc k \<and> e = Some Returned \<and> hf = snd (tr ! k)"
    and "gs ! k \<noteq> 0 \<longrightarrow> \<not> \<bar>(gs ! Suc k - gs ! k) / gs ! k\<bar> \<le> tol \<longrightarrow> int (Suc k) < maxit \<longrightarrow>
           Suc k < length tr \<or> (\<exists>err. length tr = Suc k \<and> e = Some (Raised err))"
proof -
  let ?hk = "snd (tr ! k)"
  from trace_tail[OF assms(1-4)] obtain g' where
    g: "g_pc g' = Suspended" "a_maxit g' = maxit" "a_tol g' = tol"
       "v_goals g' = Suc (top h)" "v_i g' = k"
    and c: "(case next_gen S g' ?hk of
              (Yield c, g2, h2) \<Rightarrow> Suc k < length tr
            | (StopIteration, g2, h2) \<Rightarrow> length tr = Suc k \<and> e = Some Returned \<and> hf = h2
            | (Raise err, g2, h2) \<Rightarrow> length tr = Suc k \<and> e = Some (Raised err) \<and> hf = h2)"
    by (elim exE conjE) (rule that, assumption+)
  have len: "length gs = k + 2" using trace_len(2)[OF assms(1,2,3)] assms(5) by simp
  note cv = converged_len[OF len, of tol]
  have ng: "next_gen S g' ?hk =
           (case converged gs tol of
              Inl e \<Rightarrow> raise e g' ?hk
            | Inr True \<Rightarrow> stop g' ?hk
            | Inr False \<Rightarrow> loop_head S (g'\<lparr>v_i := Suc k\<rparr>) ?hk)"
    using next_gen_Suspended[OF g(1), of S ?hk] unfolding g(3,4,5) assms(5) .
  show "gs ! k = 0 \<longrightarrow>
           length tr = Suc k \<and> e = Some (Raised ZeroDivisionError) \<and> hf = snd (tr ! k)"
  proof
    assume "gs ! k = 0"
    then have "converged gs tol = Inl ZeroDivisionError" using cv by simp
    with c show "length tr = Suc k \<and> e = Some (Raised ZeroDivisionError) \<and> hf = snd (tr ! k)"
      unfolding ng by (simp add: raise_def)
  qed
  show "gs ! k \<noteq> 0 \<longrightarrow> \<bar>(gs ! Suc k - gs ! k) / gs ! k\<bar> \<le> tol \<longrightarrow>
           length tr = Suc k \<and> e = Some Returned \<and> hf = snd (tr ! k)"
  proof (intro impI)
    assume "gs ! k \<noteq> 0" "\<bar>(gs ! Suc k - gs ! k) / gs ! k\<bar> \<le> tol"
    then have "converged gs tol = Inr True" using cv by simp
    with c show "length tr = Suc k \<and> e = Some Returned \<and> hf = snd (tr ! k)"
      unfolding ng by (simp add: stop_def)
  qed
  show "gs ! k \<noteq> 0 \<longrightarrow> \<not> \<bar>(gs ! Suc k - gs ! k) / gs ! k\<bar> \<le> tol \<longrightarrow> maxit \<le> int (Suc k) \<longrightarrow>
           length tr = Suc k \<and> e = Some Returned \<and> hf = snd (tr ! k)"
  proof (intro impI)
    assume a: "gs ! k \<noteq> 0" "\<not> \<bar>(gs ! Suc k - gs ! k) / gs ! k\<bar> \<le> tol" "maxit \<le> int (Suc k)"
    then have "converged gs tol = Inr False" using cv by simp
    moreover have "loop_head S (g'\<lparr>v_i := Suc k\<rparr>) ?hk = stop (g'\<lparr>v_i := Suc k\<rparr>) ?hk"
      by (rule loop_head_exhausted) (use a(3) g(2) in simp)
    ultimately show "length tr = Suc k \<and> e = Some Returned \<and> hf = snd (tr ! k)"
      using c unfolding ng by (simp add: stop_def)
  qed
  show "gs ! k \<noteq> 0 \<longrightarrow> \<not> \<bar>(gs ! Suc k - gs ! k) / gs ! k\<bar> \<le> tol \<longrightarrow> int (Suc k) < maxit \<longrightarrow>
           Suc k < length tr \<or> (\<exists>err. length tr = Suc k \<and> e = Some (Raised err))"
  proof (intro impI)
    assume a: "gs ! k \<noteq> 0" "\<not> \<bar>(gs ! Suc k - gs ! k) / gs ! k\<bar> \<le> tol" "int (Suc k) < maxit"
    then have "converged gs tol = Inr False" using cv by simp
    then have ng': "next_gen S g' ?hk = loop_head S (g'\<lparr>v_i := Suc k\<rparr>) ?hk"
      unfolding ng by simp
    have "fst (loop_head S (g'\<lparr>v_i := Suc k\<rparr>) ?hk) \<noteq> StopIteration"
      by (rule loop_head_no_stop) (use a(3) g(2) in simp)
    with c show "Suc k < length tr \<or> (\<exists>err. length tr = Suc k \<and> e = Some (Raised err))"
      unfolding ng' by (auto split: prod.splits outcome.splits)
  qed
qed

lemma next_gen_Created_no_stop:
  assumes "g_pc g = Created" "a_dms g \<noteq> []" "0 < a_maxit g"
  shows "fst (next_gen S g h) \<noteq> StopIteration"
proof (cases "residuals_of (a_dms g) (cells h (a_initial g))")
  case (Inl err)
  with assms show ?thesis by (simp add: next_gen_def Let_def raise_def)
next
  case (Inr rs)
  with assms show ?thesis
    by (simp add: next_gen_def Let_def alloc_def loop_head_no_stop)
qed

lemma run_empty_ending:
  assumes "run (Suc m) S g h = ([], e, hf)"
  shows "e \<noteq> None \<and> (e = Some Returned \<longrightarrow> fst (next_gen S g h) = StopIteration)"
  using assms by (auto split: prod.splits outcome.splits)

lemma trace_bound:
  assumes "initial < top h"
    and "run n S (newton dms initial regs step maxit tol) h = (tr, e, hf)"
  shows "int (length tr) \<le> max maxit 0"
proof (cases tr)
  case Nil
  then show ?thesis by simp
next
  case (Cons x xs)
  then have "length tr - 1 < length tr" by simp
  from trace_step[OF assms this] have "int (length tr - 1) < maxit" by blast
  with Cons show ?thesis by simp
qed

lemma trace_ending:
  assumes "initial < top h"
    and "run n S (newton dms initial regs step maxit tol) h = (tr, e, hf)"
    and "length tr < n"
  shows "e \<noteq> None"
proof (cases tr)
  case Nil
  from assms(3) obtain m where "n = Suc m" by (cases n) auto
  with assms(2) Nil run_empty_ending show ?thesis by blast
next
  case (Cons x xs)
  then have k: "length tr - 1 < length tr" by simp
  from trace_step[OF assms(1,2) k] obtain g' where
    r: "run (n - Suc (length tr - 1)) S g' (snd (tr ! (length tr - 1))) =
          (drop (Suc (length tr - 1)) tr, e, hf)"
    by (elim exE conjE) simp
  from assms(3) Cons obtain m where m: "n - Suc (length tr - 1) = Suc m"
    by (cases "n - Suc (length tr - 1)") auto
  have "drop (Suc (length tr - 1)) tr = []" using Cons by simp
  with r m run_empty_ending show ?thesis by metis
qed


lemma accumulate_data_gradients_foldl:
  assumes "residuals_of dms p = Inr rs"
  shows "accumulate_data_gradients dms p acc =
           Inr (foldl (\<lambda>gradient (d, res). dm_sum_gradient d gradient p res) acc (zip dms rs))"
  using assms
proof (induction dms arbitrary: rs acc)
  case Nil
  then show ?case by simp
next
  case (Cons d ds)
  then show ?case by (auto split: sum.splits)
qed

lemma accumulate_reg_gradients_foldl:
  "accumulate_reg_gradients regs p acc = foldl (\<lambda>gradient r. reg_sum_gradient r gradient p) acc regs"
  by (induction regs arbitrary: acc) simp_all

lemma accumulate_data_hessians_foldl:
  "accumulate_data_hessians dms p acc = foldl (\<lambda>hessian d. dm_sum_hessian d hessian p) acc dms"
  by (induction dms arbitrary: acc) simp_all

lemma accumulate_reg_hessians_foldl:
  "accumulate_reg_hessians regs p acc = foldl (\<lambda>hessian r. reg_sum_hessian r hessian p) acc regs"
  by (induction regs arbitrary: acc) simp_all

lemma spec_iteration_code:
  assumes "residuals_of dms p = Inr rs" and "length p = nparams"
    and "S (hessian_of dms regs nparams p) (scale (-1) (gradient_of dms rs regs p)) = Inr delta"
  shows "spec_iteration S dms regs step nparams p = np_iadd p (scale step delta)"
proof -
  have g: "accumulate_reg_gradients regs p
             (foldl (\<lambda>gradient (d, res). dm_sum_gradient d gradient p res)
                (replicate nparams 0) (zip dms rs)) = gradient_of dms rs regs p"
    using assms(2) by (simp add: gradient_of_def zeros_like_def accumulate_reg_gradients_foldl)
  have h: "accumulate_reg_hessians regs p
             (accumulate_data_hessians dms p (replicate nparams (replicate nparams 0)))
           = hessian_of dms regs nparams p"
    by (simp add: hessian_of_def zeros_def accumulate_reg_hessians_foldl
        accumulate_data_hessians_foldl)
  have m: "map uminus (gradient_of dms rs regs p) = scale (-1) (gradient_of dms rs regs p)"
    by (simp add: scale_def)
  have sc: "map (\<lambda>x. step * x) delta = scale step delta"
    by (simp add: scale_def)
  show ?thesis
    unfolding spec_iteration_def accumulate_data_gradients_foldl[OF assms(1)]
    using assms(3) by (simp add: g h m sc)
qed

lemma trace_length:
  assumes "initial < top h"
    and "run n S (newton dms initial regs step maxit tol) h = (tr, e, hf)"
    and "k < length tr"
  shows "length (cells (snd (tr ! k)) initial) = length (cells h initial)"
  using assms(3)
proof (induction k)
  case 0
  from trace_step[OF assms(1,2) 0] obtain delta where
    "np_iadd (cells h initial) (scale step delta) = Inr (cells (snd (tr ! 0)) initial)"
    by (elim exE conjE) simp
  then show ?case by (rule np_iadd_length)
next
  case (Suc k)
  then have k: "k < length tr" by simp
  from trace_step[OF assms(1,2) Suc.prems] obtain delta where
    "np_iadd (cells (snd (tr ! k)) initial) (scale step delta) =
       Inr (cells (snd (tr ! Suc k)) initial)"
    by (elim exE conjE) simp
  from np_iadd_length[OF this] Suc.IH[OF k] show ?case by simp
qed

subsection \<open>The linear solve of an iteration\<close>

lemma linalg_solve_1x1: "linalg_solve [[a]] [y] = solve1 [[a]] [y]"
  by (simp add: linalg_solve_def solve1_def square_def set_col_def)

lemma det_2x2: "det [[a, b], [c, d]] = a * d - b * c"
  by (simp add: del_col_def upt_rec[of 0] upt_rec[of 1] numeral_2_eq_2)

lemma linalg_solve_2x2:
  assumes "linalg_solve [[a, b], [c, d]] [u, v] = Inr xs"
  shows "\<exists>x y. xs = [x, y] \<and> a * x + b * y = u \<and> c * x + d * y = v"
proof -
  have nz: "a * d - b * c \<noteq> 0"
    using assms by (auto simp: linalg_solve_def square_def det_2x2 simp del: det.simps split: if_splits)
  have xs: "xs = [(u * d - b * v) / (a * d - b * c), (a * v - u * c) / (a * d - b * c)]"
    using assms nz
    by (simp add: linalg_solve_def square_def det_2x2 set_col_def upt_rec[of 0] upt_rec[of 1]
        numeral_2_eq_2 del: det.simps)
  define D where "D = a * d - b * c"
  have e1: "a * (u * d - b * v) + b * (a * v - u * c) = u * D"
    and e2: "c * (u * d - b * v) + d * (a * v - u * c) = v * D"
    by (simp_all add: D_def algebra_simps)
  have "a * ((u * d - b * v) / D) + b * ((a * v - u * c) / D) =
          (a * (u * d - b * v) + b * (a * v - u * c)) / D"
    by (simp add: add_divide_distrib)
  moreover have "c * ((u * d - b * v) / D) + d * ((a * v - u * c) / D) =
          (c * (u * d - b * v) + d * (a * v - u * c)) / D"
    by (simp add: add_divide_distrib)
  ultimately have
    "a * ((u * d - b * v) / (a * d - b * c)) + b * ((a * v - u * c) / (a * d - b * c)) = u"
    "c * ((u * d - b * v) / (a * d - b * c)) + d * ((a * v - u * c) / (a * d - b * c)) = v"
    unfolding e1 e2 using nz by (simp_all add: D_def)
  with xs show ?thesis by simp
qed









section \<open>Claims\<close>

text \<open>
  C1. Every iteration that yields a changeset is one iteration of the specification:
  with \<open>nparams\<close> the length of the initial parameter vector (which the parameter
  vector keeps through the run), the gradient buffer of length \<open>nparams\<close> and the
  \<open>nparams\<close> by \<open>nparams\<close> Hessian buffer start at zero, the contributions of
  every data module (with its residual at the current parameters) and then of every
  regularizer are folded into them, the system \<open>Hessian \<cdot> \<Delta>p = - gradient\<close> is solved,
  and the estimate of the changeset is \<open>params + stepSize \<cdot> \<Delta>p\<close>, where \<open>params\<close>
  is the estimate before the iteration (the initial vector, or the previous changeset's).
\<close>

theorem newton_iteration:
  assumes "initial < top h"
    and "run n S (newton dms initial regs step maxit tol) h = (tr, e, hf)"
    and "k < length tr"
    and "hp = (if k = 0 then h else snd (tr ! (k - 1)))"
  shows "length (cells hp initial) = length (cells h initial) \<and>
         spec_iteration S dms regs step (length (cells h initial)) (cells hp initial) =
           Inr (fst (view (snd (tr ! k)) (fst (tr ! k))))"
proof -
  have len: "length (cells hp initial) = length (cells h initial)"
  proof (cases k)
    case 0
    with assms(4) show ?thesis by simp
  next
    case (Suc k')
    then have "k' < length tr" using assms(3) by simp
    from trace_length[OF assms(1,2) this] Suc assms(4) show ?thesis by simp
  qed
  from trace_step[OF assms(1,2,3)] assms(4) obtain rsp delta where
    st: "residuals_of dms (cells hp initial) = Inr rsp"
        "S (hessian_of dms regs (length (cells hp initial)) (cells hp initial))
           (scale (-1) (gradient_of dms rsp regs (cells hp initial))) = Inr delta"
        "np_iadd (cells hp initial) (scale step delta) = Inr (cells (snd (tr ! k)) initial)"
    by (elim exE conjE) simp
  have est: "fst (view (snd (tr ! k)) (fst (tr ! k))) = cells (snd (tr ! k)) initial"
    unfolding trace_cs[OF assms(1,2,3)] by (simp add: view_def)
  have "spec_iteration S dms regs step (length (cells h initial)) (cells hp initial) =
          np_iadd (cells hp initial) (scale step delta)"
    by (rule spec_iteration_code[OF st(1) len]) (use st(2) len in simp)
  with st(3) est len show ?thesis by simp
qed

theorem newton_iteration_witness:
  "spec_iteration solve1 [dm5] [] (1/2) (length (cells h0 0))
     (cells (snd (fst (run 5 solve1 (newton [dm5] 0 [] (1/2) 3 (1/100000)) h0) ! 0)) 0) =
   Inr (fst (view (snd (fst (run 5 solve1 (newton [dm5] 0 [] (1/2) 3 (1/100000)) h0) ! 1))
                  (fst (fst (run 5 solve1 (newton [dm5] 0 [] (1/2) 3 (1/100000)) h0) ! 1)))) \<and>
   cells (snd (fst (run 5 solve1 (newton [dm5] 0 [] (1/2) 3 (1/100000)) h0) ! 0)) 0 = [5/2] \<and>
   fst (view (snd (fst (run 5 solve1 (newton [dm5] 0 [] (1/2) 3 (1/100000)) h0) ! 1))
             (fst (fst (run 5 solve1 (newton [dm5] 0 [] (1/2) 3 (1/100000)) h0) ! 1))) = [15/4]"
proof -
  define R where "R = run 5 solve1 (newton [dm5] 0 [] (1/2) 3 (1/100000)) h0"
  define hp where "hp = snd (fst R ! 0)"
  have a: "0 < top h0" by (simp add: h0_def)
  have b: "run 5 solve1 (newton [dm5] 0 [] (1/2) 3 (1/100000)) h0 = (fst R, fst (snd R), snd (snd R))"
    by (simp add: R_def)
  have c: "1 < length (fst R)" unfolding R_def by code_simp
  have d: "hp = (if (1::nat) = 0 then h0 else snd (fst R ! (1 - 1)))" by (simp add: hp_def)
  have v: "cells hp 0 = [5/2]" unfolding hp_def R_def by code_simp
  have w: "fst (view (snd (fst R ! 1)) (fst (fst R ! 1))) = [15/4]" unfolding R_def by code_simp
  have "spec_iteration solve1 [dm5] [] (1/2) (length (cells h0 0)) (cells hp 0) =
          Inr (fst (view (snd (fst R ! 1)) (fst (fst R ! 1))))"
    using newton_iteration[OF a b c d] by blast
  with v w have "spec_iteration solve1 [dm5] [] (1/2) (length (cells h0 0)) (cells hp 0) =
          Inr (fst (view (snd (fst R ! 1)) (fst (fst R ! 1)))) \<and>
      cells hp 0 = [5/2] \<and> fst (view (snd (fst R ! 1)) (fst (fst R ! 1))) = [15/4]"
    by blast
  then show ?thesis unfolding hp_def R_def .
qed

text \<open>
  C2 (as amended). When the consumer resumes the generator after the changeset of
  iteration \<open>k\<close>, and the previous goal \<open>gs ! k\<close> is not zero, the solver returns
  exactly when the relative change \<open>\<bar>gs ! Suc k - gs ! k\<bar> / \<bar>gs ! k\<bar>\<close> is at most
  \<^verbatim>\<open>tol\<close> (the boundary is inclusive) or iteration \<open>k\<close> was the last one that
  \<^verbatim>\<open>maxit\<close> allows; a relative change strictly greater than \<^verbatim>\<open>tol\<close> continues to
  iteration \<open>k + 1\<close> (which yields the next changeset or raises) when
  \<open>k + 1 < maxit\<close>.
\<close>

theorem stopping_rule:
  assumes "initial < top h"
    and "run n S (newton dms initial regs step maxit tol) h = (tr, e, hf)"
    and "k < length tr" and "Suc k < n"
    and "view (snd (tr ! k)) (fst (tr ! k)) = (p, ms, gs)"
    and "gs ! k \<noteq> 0"
  shows "((length tr = Suc k \<and> e = Some Returned) \<longleftrightarrow>
            (\<bar>gs ! Suc k - gs ! k\<bar> / \<bar>gs ! k\<bar> \<le> tol \<or> maxit \<le> int (Suc k))) \<and>
         (tol < \<bar>gs ! Suc k - gs ! k\<bar> / \<bar>gs ! k\<bar> \<and> int (Suc k) < maxit \<longrightarrow>
            Suc k < length tr \<or> (\<exists>err. length tr = Suc k \<and> e = Some (Raised err)))"
proof -
  note v = trace_view[OF assms(1,2,3,5)]
  note ay = after_yield[OF assms(1,2,3,4) v(3)]
  have ab: "\<bar>(gs ! Suc k - gs ! k) / gs ! k\<bar> = \<bar>gs ! Suc k - gs ! k\<bar> / \<bar>gs ! k\<bar>"
    by simp
  show ?thesis
  proof (cases "\<bar>gs ! Suc k - gs ! k\<bar> / \<bar>gs ! k\<bar> \<le> tol")
    case True
    with ay(2) assms(6) ab show ?thesis by simp
  next
    case False
    show ?thesis
    proof (cases "maxit \<le> int (Suc k)")
      case True
      with ay(3) assms(6) ab False show ?thesis by simp
    next
      case m: False
      with ay(4) assms(6) ab False
      have "Suc k < length tr \<or> (\<exists>err. length tr = Suc k \<and> e = Some (Raised err))"
        by simp
      with m False show ?thesis by auto
    qed
  qed
qed

theorem stopping_rule_witness:
  "snd (snd (view
      (snd (fst (run 5 solve1 (newton [dm5] 0 [] (1/2) 3 (3/4)) h0) ! 0))
      (fst (fst (run 5 solve1 (newton [dm5] 0 [] (1/2) 3 (3/4)) h0) ! 0)))) = [25, 25/4] \<and>
   \<bar>25/4 - 25\<bar> / \<bar>25\<bar> = (3/4 :: real) \<and>
   length (fst (run 5 solve1 (newton [dm5] 0 [] (1/2) 3 (3/4)) h0)) = 1 \<and>
   fst (snd (run 5 solve1 (newton [dm5] 0 [] (1/2) 3 (3/4)) h0)) = Some Returned"
proof -
  define R where "R = run 5 solve1 (newton [dm5] 0 [] (1/2) 3 (3/4)) h0"
  define V where "V = view (snd (fst R ! 0)) (fst (fst R ! 0))"
  have a: "0 < top h0" by (simp add: h0_def)
  have b: "run 5 solve1 (newton [dm5] 0 [] (1/2) 3 (3/4)) h0 = (fst R, fst (snd R), snd (snd R))"
    by (simp add: R_def)
  have c: "0 < length (fst R)" unfolding R_def by code_simp
  have d: "view (snd (fst R ! 0)) (fst (fst R ! 0)) = (fst V, fst (snd V), snd (snd V))"
    by (simp add: V_def)
  have v: "snd (snd V) = [25, 25/4]" unfolding V_def R_def by code_simp
  then have z: "snd (snd V) ! 0 \<noteq> 0" by simp
  have r: "\<bar>25/4 - 25\<bar> / \<bar>25\<bar> = (3/4 :: real)" by simp
  have "length (fst R) = Suc 0 \<and> fst (snd R) = Some Returned"
    using stopping_rule[OF a b c _ d z] v r by simp
  then have "snd (snd V) = [25, 25/4] \<and> \<bar>25/4 - 25\<bar> / \<bar>25\<bar> = (3/4 :: real) \<and>
      length (fst R) = 1 \<and> fst (snd R) = Some Returned"
    using v r by simp
  then show ?thesis unfolding V_def R_def .
qed

text \<open>
  The claim as stated fails when the budget ends the run: with \<^verbatim>\<open>maxit = 1\<close> the
  relative change after the only iteration is 3/4, above the tolerance, and the solver
  returns all the same.
\<close>

theorem stopping_rule_counterexample:
  "length (fst (run 5 solve1 (newton [dm5] 0 [] (1/2) 1 (1/100000)) h0)) = 1 \<and>
   fst (snd (run 5 solve1 (newton [dm5] 0 [] (1/2) 1 (1/100000)) h0)) = Some Returned \<and>
   cells (snd (fst (run 5 solve1 (newton [dm5] 0 [] (1/2) 1 (1/100000)) h0) ! 0)) 2
     = [25, 25/4] \<and>
   \<not> \<bar>25/4 - 25\<bar> / \<bar>25\<bar> \<le> (1/100000 :: real)"
  by code_simp

text \<open>
  C3. For every emitted changeset \<open>k\<close> (counting from 0), read in the store as it is
  when the changeset is yielded, the \<^verbatim>\<open>misfits\<close> and \<^verbatim>\<open>goals\<close> lists both have
  length \<open>k + 2\<close>: their first entry is the seed value computed from the initial
  parameters before any update, and the lists of an earlier changeset \<open>j\<close> are the
  first \<open>j + 2\<close> entries of those of changeset \<open>k\<close>, so one value was appended per
  completed iteration, in emission order.
\<close>

theorem histories_length:
  assumes "initial < top h"
    and "run n S (newton dms initial regs step maxit tol) h = (tr, e, hf)"
    and "k < length tr"
    and "view (snd (tr ! k)) (fst (tr ! k)) = (p, ms, gs)"
  shows "length ms = k + 2 \<and> length gs = k + 2 \<and>
         (\<exists>rs. residuals_of dms (cells h initial) = Inr rs \<and>
               hd ms = misfit_of dms rs \<and>
               hd gs = goal_of regs (misfit_of dms rs) (cells h initial)) \<and>
         (\<forall>j\<le>k. snd (view (snd (tr ! j)) (fst (tr ! j))) = (take (j + 2) ms, take (j + 2) gs))"
proof -
  have cs: "fst (tr ! j) =
      \<lparr>estimate = initial, cs_misfits = top h, cs_goals = Suc (top h), cs_dms = dms\<rparr>"
    if "j \<le> k" for j
    using trace_cs[OF assms(1,2), of j] assms(3) that by simp
  have ms: "ms = cells (snd (tr ! k)) (top h)" "gs = cells (snd (tr ! k)) (Suc (top h))"
    using assms(4) cs[of k] by (auto simp: view_def)
  have len: "length ms = k + 2" "length gs = k + 2"
    using trace_len[OF assms(1,2,3)] ms by simp_all
  have k0: "0 < length tr" using assms(3) by (cases tr) auto
  from trace_seed[OF assms(1,2) k0] obtain rs m gl where
    seed: "residuals_of dms (cells h initial) = Inr rs"
          "cells (snd (tr ! 0)) (top h) = [misfit_of dms rs, m]"
          "cells (snd (tr ! 0)) (Suc (top h)) = [goal_of regs (misfit_of dms rs) (cells h initial), gl]"
    by blast
  from hist_prefix[OF assms(1,2,3), of 0] seed(2,3)
  have tk: "take 2 ms = [misfit_of dms rs, m]"
           "take 2 gs = [goal_of regs (misfit_of dms rs) (cells h initial), gl]"
    unfolding ms by (simp_all add: numeral_2_eq_2)
  have hd: "hd ms = misfit_of dms rs" "hd gs = goal_of regs (misfit_of dms rs) (cells h initial)"
    using tk by (simp_all add: hd_take2)
  have pre: "snd (view (snd (tr ! j)) (fst (tr ! j))) = (take (j + 2) ms, take (j + 2) gs)"
    if "j \<le> k" for j
    using hist_prefix[OF assms(1,2,3) that] cs[OF that] ms by (simp add: view_def)
  from len seed(1) hd pre show ?thesis by blast
qed

theorem histories_length_witness:
  "length (fst (snd (view
      (snd (fst (run 5 solve1 (newton [dm5] 0 [] (1/2) 3 (1/100000)) h0) ! 1))
      (fst (fst (run 5 solve1 (newton [dm5] 0 [] (1/2) 3 (1/100000)) h0) ! 1))))) = 3 \<and>
   snd (view
      (snd (fst (run 5 solve1 (newton [dm5] 0 [] (1/2) 3 (1/100000)) h0) ! 1))
      (fst (fst (run 5 solve1 (newton [dm5] 0 [] (1/2) 3 (1/100000)) h0) ! 1)))
     = ([25, 25/4, 25/16], [25, 25/4, 25/16])"
proof -
  define R where "R = run 5 solve1 (newton [dm5] 0 [] (1/2) 3 (1/100000)) h0"
  define V where "V = view (snd (fst R ! 1)) (fst (fst R ! 1))"
  have a: "0 < top h0" by (simp add: h0_def)
  have b: "run 5 solve1 (newton [dm5] 0 [] (1/2) 3 (1/100000)) h0 = (fst R, fst (snd R), snd (snd R))"
    by (simp add: R_def)
  have c: "1 < length (fst R)" unfolding R_def by code_simp
  have d: "view (snd (fst R ! 1)) (fst (fst R ! 1)) = (fst V, fst (snd V), snd (snd V))"
    by (simp add: V_def)
  have v: "snd V = ([25, 25/4, 25/16], [25, 25/4, 25/16])" unfolding V_def R_def by code_simp
  have "length (fst (snd V)) = 1 + 2" using histories_length[OF a b c d] by blast
  then have "length (fst (snd V)) = 3 \<and> snd V = ([25, 25/4, 25/16], [25, 25/4, 25/16])"
    using v by simp
  then show ?thesis unfolding V_def R_def .
qed

text \<open>
  C4 (as amended). With an empty list of data modules the first request for a changeset
  raises \<^verbatim>\<open>ValueError\<close> (the InvalidArgument of the specification): the check of line
  93 runs on that first pull, before any iteration and before any changeset, and leaves
  the store untouched; a consumer gets no changeset and the error, and the generator is
  finished afterwards.
\<close>

theorem empty_data_modules:
  "next_gen S (newton [] initial regs step maxit tol) h =
     (Raise (ValueError ''Need at least 1 data module. None given''),
      (newton [] initial regs step maxit tol)\<lparr>g_pc := Finished\<rparr>, h) \<and>
   run (Suc n) S (newton [] initial regs step maxit tol) h =
     ([], Some (Raised (ValueError ''Need at least 1 data module. None given'')), h) \<and>
   next_gen S ((newton [] initial regs step maxit tol)\<lparr>g_pc := Finished\<rparr>) h =
     (StopIteration, (newton [] initial regs step maxit tol)\<lparr>g_pc := Finished\<rparr>, h)"
  by (simp add: next_gen_def newton_def raise_def)

theorem empty_data_modules_witness:
  "run 3 solve1 (newton [] 0 [] 1 100 (1/100000)) h0 =
     ([], Some (Raised (ValueError ''Need at least 1 data module. None given'')), h0)"
  using empty_data_modules[of solve1 0 "[]" 1 100 "1/100000" h0 2]
  by (simp add: numeral_3_eq_3)

text \<open>
  The claim as stated fails: \<^verbatim>\<open>newton\<close> is a generator function, so the call runs none
  of its body. The generator it returns for an empty list has not started, like the one
  for a non-empty list, and a caller that pulls nothing sees no error.
\<close>

theorem empty_data_modules_counterexample:
  "g_pc (newton [] 0 [] 1 100 (1/100000)) = Created \<and>
   g_pc (newton [dm5] 0 [] 1 100 (1/100000)) = Created \<and>
   fst (snd (run 0 solve1 (newton [] 0 [] 1 100 (1/100000)) h0)) \<noteq>
     Some (Raised (ValueError ''Need at least 1 data module. None given''))"
  by (simp add: newton_def)




text \<open>
  C6 (as amended). A consumer that pulls more than \<^verbatim>\<open>maxit\<close> times sees the run end;
  the solver emits at most \<^verbatim>\<open>maxit\<close> changesets, and none when \<^verbatim>\<open>maxit\<close> is zero
  or negative; when changeset number \<^verbatim>\<open>maxit\<close> was emitted and the goal before that
  last iteration (\<open>gs ! (length tr - 1)\<close>) is not zero, the solver returns normally,
  whether the tolerance is met or not, leaving the store as it was at that last
  changeset; and with a non-empty list of data modules and \<^verbatim>\<open>maxit\<close> at least 1, a
  solve that returns normally has emitted at least one changeset.
\<close>

theorem iteration_budget:
  assumes "initial < top h"
    and "run n S (newton dms initial regs step maxit tol) h = (tr, e, hf)"
    and "nat maxit < n"
  shows "e \<noteq> None \<and> int (length tr) \<le> max maxit 0 \<and> (maxit \<le> 0 \<longrightarrow> tr = []) \<and>
         (tr \<noteq> [] \<and> int (length tr) = maxit \<and>
          snd (snd (view (snd (last tr)) (fst (last tr)))) ! (length tr - 1) \<noteq> 0
            \<longrightarrow> e = Some Returned \<and> hf = snd (last tr)) \<and>
         (dms \<noteq> [] \<and> 1 \<le> maxit \<and> e = Some Returned \<longrightarrow> tr \<noteq> [])"
proof -
  note b = trace_bound[OF assms(1,2)]
  then have ln: "length tr < n" using assms(3) by linarith
  have e: "e \<noteq> None" by (rule trace_ending[OF assms(1,2) ln])
  have none: "tr = []" if "maxit \<le> 0" using b that by simp
  have last: "e = Some Returned \<and> hf = snd (last tr)"
    if t: "tr \<noteq> []" and m: "int (length tr) = maxit"
      and c: "snd (snd (view (snd (last tr)) (fst (last tr)))) ! (length tr - 1) \<noteq> 0"
  proof -
    let ?k = "length tr - 1"
    have k: "?k < length tr" "Suc ?k < n" "last tr = tr ! ?k" "Suc ?k = length tr"
      using t ln by (simp_all add: last_conv_nth)
    obtain p ms gs where v: "view (snd (tr ! ?k)) (fst (tr ! ?k)) = (p, ms, gs)"
      by (cases "view (snd (tr ! ?k)) (fst (tr ! ?k))") auto
    note tv = trace_view[OF assms(1,2) k(1) v]
    note ay = after_yield[OF assms(1,2) k(1,2) tv(3)]
    have z: "gs ! ?k \<noteq> 0" using c v k(3) by simp
    have mx: "maxit \<le> int (Suc ?k)" using m k(4) by simp
    show ?thesis
    proof (cases "\<bar>(gs ! Suc ?k - gs ! ?k) / gs ! ?k\<bar> \<le> tol")
      case True
      with ay(2) z k(3) show ?thesis by simp
    next
      case False
      with ay(3) z mx k(3) show ?thesis by simp
    qed
  qed
  have first: "tr \<noteq> []" if d: "dms \<noteq> []" and m: "1 \<le> maxit" and r: "e = Some Returned"
  proof
    assume "tr = []"
    moreover from ln obtain m' where "n = Suc m'" by (cases n) auto
    ultimately have "fst (next_gen S (newton dms initial regs step maxit tol) h) = StopIteration"
      using assms(2) r run_empty_ending by blast
    moreover have "fst (next_gen S (newton dms initial regs step maxit tol) h) \<noteq> StopIteration"
      by (rule next_gen_Created_no_stop) (use d m in \<open>simp_all add: newton_def\<close>)
    ultimately show False by simp
  qed
  from e b none last first show ?thesis by blast
qed

theorem iteration_budget_witness:
  "length (fst (run 5 solve1 (newton [dm5] 0 [] (1/2) 3 (1/100000)) h0)) = 3 \<and>
   snd (snd (view (snd (last (fst (run 5 solve1 (newton [dm5] 0 [] (1/2) 3 (1/100000)) h0))))
                  (fst (last (fst (run 5 solve1 (newton [dm5] 0 [] (1/2) 3 (1/100000)) h0))))))
     = [25, 25/4, 25/16, 25/64] \<and>
   fst (snd (run 5 solve1 (newton [dm5] 0 [] (1/2) 3 (1/100000)) h0)) = Some Returned"
proof -
  define R where "R = run 5 solve1 (newton [dm5] 0 [] (1/2) 3 (1/100000)) h0"
  define G where "G = snd (snd (view (snd (last (fst R))) (fst (last (fst R)))))"
  have a: "0 < top h0" by (simp add: h0_def)
  have b: "run 5 solve1 (newton [dm5] 0 [] (1/2) 3 (1/100000)) h0 = (fst R, fst (snd R), snd (snd R))"
    by (simp add: R_def)
  have c: "nat 3 < (5::nat)" by simp
  have l: "length (fst R) = 3" unfolding R_def by code_simp
  then have t: "fst R \<noteq> []" "int (length (fst R)) = 3" by auto
  have g: "G = [25, 25/4, 25/16, 25/64]" unfolding G_def R_def by code_simp
  then have v: "G ! (length (fst R) - 1) \<noteq> 0" using l by simp
  have "fst (snd R) = Some Returned"
    using iteration_budget[OF a b c] t v unfolding G_def by blast
  with l g have "length (fst R) = 3 \<and> G = [25, 25/4, 25/16, 25/64] \<and>
      fst (snd R) = Some Returned" by simp
  then show ?thesis unfolding G_def R_def .
qed

text \<open>
  The claim as stated fails twice. For \<^verbatim>\<open>maxit = 0\<close> the loop body never runs and the
  solver returns without a changeset, whatever the data modules. And with \<^verbatim>\<open>maxit = 1\<close>
  and a seed goal of zero the budget is reached with goals \<open>[0, 1]\<close>, but the stopping
  rule, evaluated after the last changeset as after any other, divides by the zero seed
  goal: the run ends with \<^verbatim>\<open>ZeroDivisionError\<close>, not normally.
\<close>

theorem iteration_budget_counterexample:
  "[dm5] \<noteq> [] \<and>
   fst (run 5 solve1 (newton [dm5] 0 [] 1 0 (1/100000)) h0) = [] \<and>
   fst (snd (run 5 solve1 (newton [dm5] 0 [] 1 0 (1/100000)) h0)) = Some Returned \<and>
   length (fst (run 5 solve1 (newton [dm_off] 0 [] 1 1 (1/100000)) h0)) = 1 \<and>
   cells (snd (fst (run 5 solve1 (newton [dm_off] 0 [] 1 1 (1/100000)) h0) ! 0)) 2 = [0, 1] \<and>
   fst (snd (run 5 solve1 (newton [dm_off] 0 [] 1 1 (1/100000)) h0)) =
     Some (Raised ZeroDivisionError)"
  by code_simp

text \<open>
  C7 (as amended). The parameter vector is handed by reference: the estimate of every
  changeset is the caller's initial array itself, which line 111 updates in place. When
  changeset \<open>k\<close> is yielded, every earlier changeset \<open>j\<close> is the same triple of
  references and reads the same estimate and histories as changeset \<open>k\<close>, and the
  caller's initial vector holds the estimate of changeset \<open>k\<close>.
\<close>

theorem estimate_shared:
  assumes "initial < top h"
    and "run n S (newton dms initial regs step maxit tol) h = (tr, e, hf)"
    and "k < length tr" and "j \<le> k"
  shows "estimate (fst (tr ! j)) = initial \<and> fst (tr ! j) = fst (tr ! k) \<and>
         view (snd (tr ! k)) (fst (tr ! j)) = view (snd (tr ! k)) (fst (tr ! k)) \<and>
         fst (view (snd (tr ! k)) (fst (tr ! j))) = cells (snd (tr ! k)) initial"
proof -
  have j: "j < length tr" using assms(3,4) by simp
  show ?thesis
    unfolding trace_cs[OF assms(1,2,3)] trace_cs[OF assms(1,2) j]
    by (simp add: view_def)
qed

theorem estimate_shared_witness:
  "estimate (fst (fst (run 5 solve1 (newton [dm5] 0 [] (1/2) 3 (1/100000)) h0) ! 0)) = 0 \<and>
   fst (view (snd (fst (run 5 solve1 (newton [dm5] 0 [] (1/2) 3 (1/100000)) h0) ! 2))
             (fst (fst (run 5 solve1 (newton [dm5] 0 [] (1/2) 3 (1/100000)) h0) ! 0))) =
   cells (snd (fst (run 5 solve1 (newton [dm5] 0 [] (1/2) 3 (1/100000)) h0) ! 2)) 0 \<and>
   cells (snd (fst (run 5 solve1 (newton [dm5] 0 [] (1/2) 3 (1/100000)) h0) ! 2)) 0 = [35/8]"
proof -
  define R where "R = run 5 solve1 (newton [dm5] 0 [] (1/2) 3 (1/100000)) h0"
  have a: "0 < top h0" by (simp add: h0_def)
  have b: "run 5 solve1 (newton [dm5] 0 [] (1/2) 3 (1/100000)) h0 = (fst R, fst (snd R), snd (snd R))"
    by (simp add: R_def)
  have c: "2 < length (fst R)" unfolding R_def by code_simp
  have d: "(0::nat) \<le> 2" by simp
  have v: "cells (snd (fst R ! 2)) 0 = [35/8]" unfolding R_def by code_simp
  have "estimate (fst (fst R ! 0)) = 0 \<and>
        fst (view (snd (fst R ! 2)) (fst (fst R ! 0))) = cells (snd (fst R ! 2)) 0"
    using estimate_shared[OF a b c d] by blast
  with v have "estimate (fst (fst R ! 0)) = 0 \<and>
        fst (view (snd (fst R ! 2)) (fst (fst R ! 0))) = cells (snd (fst R ! 2)) 0 \<and>
        cells (snd (fst R ! 2)) 0 = [35/8]" by simp
  then show ?thesis unfolding R_def .
qed

text \<open>
  The claim as stated fails: the estimate read through changeset 0 is \<open>[5/2]\<close> when
  it is yielded and \<open>[15/4]\<close> after the next iteration, and the caller's initial array,
  \<open>[0]\<close> before the solve, holds \<open>[35/8]\<close> after it.
\<close>

theorem estimate_shared_counterexample:
  "cells (snd (fst (run 5 solve1 (newton [dm5] 0 [] (1/2) 3 (1/100000)) h0) ! 0))
     (estimate (fst (fst (run 5 solve1 (newton [dm5] 0 [] (1/2) 3 (1/100000)) h0) ! 0))) = [5/2] \<and>
   cells (snd (fst (run 5 solve1 (newton [dm5] 0 [] (1/2) 3 (1/100000)) h0) ! 1))
     (estimate (fst (fst (run 5 solve1 (newton [dm5] 0 [] (1/2) 3 (1/100000)) h0) ! 0))) = [15/4] \<and>
   cells h0 0 = [0] \<and>
   cells (snd (snd (run 5 solve1 (newton [dm5] 0 [] (1/2) 3 (1/100000)) h0))) 0 = [35/8]"
  by code_simp

text \<open>
  C8. The stopping rule divides by \<^verbatim>\<open>goals[-2]\<close> with no guard. When the consumer
  resumes the generator after changeset \<open>k\<close> and the previous goal value
  (\<open>gs ! k\<close>, the goal before iteration \<open>k\<close>) is exactly zero, evaluating the rule
  divides by zero: the run ends there with \<^verbatim>\<open>ZeroDivisionError\<close>.
\<close>

theorem zero_goal_division:
  assumes "initial < top h"
    and "run n S (newton dms initial regs step maxit tol) h = (tr, e, hf)"
    and "k < length tr" and "Suc k < n"
    and "view (snd (tr ! k)) (fst (tr ! k)) = (p, ms, gs)"
    and "gs ! k = 0"
  shows "converged gs tol = Inl ZeroDivisionError \<and>
         length tr = Suc k \<and> e = Some (Raised ZeroDivisionError)"
proof -
  note v = trace_view[OF assms(1,2,3,5)]
  have "converged gs tol = Inl ZeroDivisionError"
    using converged_len[OF v(5), of tol] assms(6) by simp
  moreover have "length tr = Suc k \<and> e = Some (Raised ZeroDivisionError)"
    using after_yield(1)[OF assms(1,2,3,4) v(3)] assms(6) by simp
  ultimately show ?thesis by simp
qed

theorem zero_goal_division_witness:
  "snd (snd (view
      (snd (fst (run 5 solve1 (newton [dm5] 0 [] 1 100 (1/100000)) h0) ! 1))
      (fst (fst (run 5 solve1 (newton [dm5] 0 [] 1 100 (1/100000)) h0) ! 1)))) = [25, 0, 0] \<and>
   length (fst (run 5 solve1 (newton [dm5] 0 [] 1 100 (1/100000)) h0)) = 2 \<and>
   fst (snd (run 5 solve1 (newton [dm5] 0 [] 1 100 (1/100000)) h0)) =
     Some (Raised ZeroDivisionError)"
proof -
  define R where "R = run 5 solve1 (newton [dm5] 0 [] 1 100 (1/100000)) h0"
  define V where "V = view (snd (fst R ! 1)) (fst (fst R ! 1))"
  have a: "0 < top h0" by (simp add: h0_def)
  have b: "run 5 solve1 (newton [dm5] 0 [] 1 100 (1/100000)) h0 = (fst R, fst (snd R), snd (snd R))"
    by (simp add: R_def)
  have c: "1 < length (fst R)" unfolding R_def by code_simp
  have d: "view (snd (fst R ! 1)) (fst (fst R ! 1)) = (fst V, fst (snd V), snd (snd V))"
    by (simp add: V_def)
  have v: "snd (snd V) = [25, 0, 0]" unfolding V_def R_def by code_simp
  then have z: "snd (snd V) ! 1 = 0" by simp
  have "length (fst R) = Suc 1 \<and> fst (snd R) = Some (Raised ZeroDivisionError)"
    using zero_goal_division[OF a b c _ d z] by simp
  then have "snd (snd V) = [25, 0, 0] \<and> length (fst R) = 2 \<and>
      fst (snd R) = Some (Raised ZeroDivisionError)"
    using v by simp
  then show ?thesis unfolding V_def R_def .
qed

text \<open>
  C9. The docstring of the module lists a solver \<^verbatim>\<open>lev_marq\<close>; the module defines no
  such name, only \<^verbatim>\<open>newton\<close>.
\<close>

theorem lev_marq_missing:
  "''lev_marq'' \<in> set documented_solvers \<and> ''lev_marq'' \<notin> set module_globals \<and>
   ''newton'' \<in> set module_globals"
  by (simp add: documented_solvers_def module_globals_def)

text \<open>
  C10. With an empty list of regularizers the goal equals the misfit at the seed and
  after every iteration: in every emitted changeset, read when it is yielded, the
  \<^verbatim>\<open>goals\<close> list is the \<^verbatim>\<open>misfits\<close> list, entry by entry.
\<close>

theorem goals_equal_misfits:
  assumes "initial < top h"
    and "run n S (newton dms initial [] step maxit tol) h = (tr, e, hf)"
    and "k < length tr"
    and "view (snd (tr ! k)) (fst (tr ! k)) = (p, ms, gs)"
  shows "gs = ms"
  using trace_goals_eq[OF assms(1,2,3)] trace_cs[OF assms(1,2,3)] assms(4)
  by (auto simp: view_def)

theorem goals_equal_misfits_witness:
  "snd (snd (view
      (snd (fst (run 4 solve1 (newton [dm5] 0 [] (1/2) 3 (1/100)) h0) ! 2))
      (fst (fst (run 4 solve1 (newton [dm5] 0 [] (1/2) 3 (1/100)) h0) ! 2)))) =
   fst (snd (view
      (snd (fst (run 4 solve1 (newton [dm5] 0 [] (1/2) 3 (1/100)) h0) ! 2))
      (fst (fst (run 4 solve1 (newton [dm5] 0 [] (1/2) 3 (1/100)) h0) ! 2)))) \<and>
   fst (snd (view
      (snd (fst (run 4 solve1 (newton [dm5] 0 [] (1/2) 3 (1/100)) h0) ! 2))
      (fst (fst (run 4 solve1 (newton [dm5] 0 [] (1/2) 3 (1/100)) h0) ! 2)))) =
   [25, 25/4, 25/16, 25/64]"
proof -
  define R where "R = run 4 solve1 (newton [dm5] 0 [] (1/2) 3 (1/100)) h0"
  define V where "V = view (snd (fst R ! 2)) (fst (fst R ! 2))"
  have a: "0 < top h0" by (simp add: h0_def)
  have b: "run 4 solve1 (newton [dm5] 0 [] (1/2) 3 (1/100)) h0 = (fst R, fst (snd R), snd (snd R))"
    by (simp add: R_def)
  have c: "2 < length (fst R)" unfolding R_def by code_simp
  have d: "view (snd (fst R ! 2)) (fst (fst R ! 2)) = (fst V, fst (snd V), snd (snd V))"
    by (simp add: V_def)
  have v: "fst (snd V) = [25, 25/4, 25/16, 25/64]" unfolding V_def R_def by code_simp
  have "snd (snd V) = fst (snd V)" by (rule goals_equal_misfits[OF a b c d])
  then have "snd (snd V) = fst (snd V) \<and> fst (snd V) = [25, 25/4, 25/16, 25/64]"
    using v by simp
  then show ?thesis unfolding V_def R_def .
qed

end
